theory Spec2Isabelle
  imports Main
begin

section \<open>JavaScript values and plan ops\<close>

text \<open>
  The checkout operation \<^verbatim>\<open>fastCheckout\<close> (the second part of the source file
  \<^verbatim>\<open>src/commands/WORKDIR.js\<close>, to which the line numbers below refer) builds a plan, a
  JavaScript array of ops, each op itself an array such as
  \<^verbatim>\<open>['create', fullpath, oid, mode]\<close>. An op is modelled as the list of its elements, so
  that ops of any length and with any first element can be written.
\<close>

datatype jsval = Undefined | Bool bool | Num int | Str string

type_synonym op = "jsval list"

text \<open>Array destructuring \<^verbatim>\<open>([method, fullpath, oid, mode, chmod]) => ...\<close>: a position
  beyond the end of the array reads as \<^verbatim>\<open>undefined\<close>.\<close>

definition elem :: "op \<Rightarrow> nat \<Rightarrow> jsval" where
  "elem xs i = (if i < length xs then xs ! i else Undefined)"

text \<open>\<^verbatim>\<open>Number.prototype.toString(radix)\<close> on an integer (the radix is 8 for modes and 10
  in template strings), and the conversion a template string applies to a value.\<close>

definition digit_char :: "nat \<Rightarrow> char" where
  "digit_char d = ''0123456789abcdefghijklmnopqrstuvwxyz'' ! d"

fun nat_digits :: "nat \<Rightarrow> nat \<Rightarrow> string" where
  "nat_digits b n =
     (if b < 2 \<or> n < b then [digit_char n] else nat_digits b (n div b) @ [digit_char (n mod b)])"

definition toString :: "nat \<Rightarrow> int \<Rightarrow> string" where
  "toString radix n = (if n < 0 then CHR ''-'' # nat_digits radix (nat (- n)) else nat_digits radix (nat n))"

fun template :: "jsval \<Rightarrow> string" where
  "template Undefined = ''undefined''"
| "template (Bool b) = (if b then ''true'' else ''false'')"
| "template (Num n) = toString 10 n"
| "template (Str s) = s"

text \<open>JavaScript truthiness, as used by \<^verbatim>\<open>if (chmod)\<close>.\<close>

fun truthy :: "jsval \<Rightarrow> bool" where
  "truthy Undefined = False"
| "truthy (Bool b) = b"
| "truthy (Num n) = (n \<noteq> 0)"
| "truthy (Str s) = (s \<noteq> [])"

section \<open>Errors\<close>

text \<open>The errors of \<^verbatim>\<open>models/GitError.js\<close> that the operation raises or inspects, the
  errors of the filesystem (identified by their \<^verbatim>\<open>code\<close>, such as \<^verbatim>\<open>ENOTEMPTY\<close>), and the
  \<^verbatim>\<open>TypeError\<close> of the JavaScript runtime.\<close>

datatype message = Messages "jsval list" | Message string

datatype gerror =
    MissingRequiredParameterError string string
  | NotImplementedFail string
  | ReadObjectFail jsval
  | CommitNotFetchedError string string
  | CheckoutConflictError "jsval list"
  | InternalFail message
  | ResolveRefError string
  | FsError string
  | TypeError string

text \<open>What the outer \<^verbatim>\<open>catch\<close> rethrows: the error, tagged with \<^verbatim>\<open>err.caller\<close>.\<close>

datatype thrown = Thrown (err: gerror) (caller: string)

datatype logged = LogError gerror | LogText string


section \<open>Walk entries\<close>

text \<open>The result of \<^verbatim>\<open>fs.lstat\<close>.\<close>

record stats =
  mode :: int
  size :: int
  mtimeMs :: int

text \<open>
  A walk entry. Its fields \<^verbatim>\<open>type\<close>, \<^verbatim>\<open>mode\<close> and \<^verbatim>\<open>oid\<close> are filled in place by the
  awaited calls \<^verbatim>\<open>populateStat\<close> and \<^verbatim>\<open>populateHash\<close>, methods of the walker classes, which
  are built with \<^verbatim>\<open>fs\<close> and \<^verbatim>\<open>gitdir\<close> (line 38) and so may read the disk, may touch the
  index, and may raise. The record holds what these calls answer for the entry:
  \<open>stat_raises\<close> is the error \<^verbatim>\<open>populateStat\<close> raises, if any, and \<open>type\<close> and \<open>mode\<close> what
  it fills in otherwise; \<open>hash_raises\<close> is the error \<^verbatim>\<open>populateHash\<close> raises, if any, and
  \<open>oid\<close> what it fills in otherwise (the calls are idempotent and memoized per entry,
  section 4.2 of the specification, so a repeated call answers as the first).
  The commit entry's mode is an octal string, the modes of the workdir and stage entries
  are the numbers of a stat. \<^verbatim>\<open>type\<close> is the type as a \<^verbatim>\<open>switch\<close> compares it and as a
  template string prints it (\<^verbatim>\<open>undefined\<close> for an entry that has none). The callback
  reads a field only after the populate call that fills it, with one exception: the
  \<^verbatim>\<open>tree-blob\<close> case of keys 110 and 111 puts \<^verbatim>\<open>commit.oid\<close> into its op without
  populating the hash, and \<open>oid\<close> stands for what the entry holds then.
\<close>

record entry =
  exists :: bool
  fullpath :: string
  type :: string
  mode :: jsval
  oid :: jsval
  stat_raises :: "gerror option"
  hash_raises :: "gerror option"

type_synonym triple = "entry \<times> entry \<times> entry"

text \<open>The three walkers handed to the walk (line 172); \<^verbatim>\<open>TREE\<close> yields the commit
  entries.\<close>

datatype walker = TREE | WORKDIR | STAGE

section \<open>Collaborator calls and state\<close>

text \<open>
  The filesystem, the index, the configuration store, the walkers, the emitter and the
  console are collaborators outside the operation. Every call that can change one of them
  is recorded, in the order made: the state of a run is the list of these calls and the
  progress counter \<^verbatim>\<open>count\<close>. The populate calls of the walkers are among them:
  \<^verbatim>\<open>populateHash\<close> of the workdir walker hashes the file on disk and may refresh the entry
  of the file in the index.
\<close>

datatype call =
    ConfigSet string string string
  | FsWrite string string "int option"
  | FsWritelink string string
  | FsRm string
  | FsRmdir string
  | FsMkdir string
  | IndexAcquire string
  | IndexDelete jsval
  | IndexInsert jsval stats jsval
  | PopulateStat walker string
  | PopulateHash walker string
  | Emit string string nat "nat option"
  | ConsoleLog logged

record state =
  calls :: "call list"
  count :: nat

definition log :: "call \<Rightarrow> state \<Rightarrow> state" where
  "log c s = s\<lparr>calls := calls s @ [c]\<rparr>"

text \<open>An awaited call, with the error it raises, if any: the call is recorded when it is
  made, whether it then succeeds or raises.\<close>

definition effect :: "call \<Rightarrow> gerror option \<Rightarrow> state \<Rightarrow> gerror option \<times> state" where
  "effect c r s = (r, log c s)"

text \<open>\<^verbatim>\<open>await Promise.all([c1, c2, ...])\<close> over single calls: all of them are made, in the
  order written, and the whole raises what the first of them that raises does.\<close>

fun await_all :: "(call \<times> gerror option) list \<Rightarrow> state \<Rightarrow> gerror option \<times> state" where
  "await_all [] s = (None, s)"
| "await_all ((c, r) # cs) s =
     (case await_all cs (log c s) of (r', s') \<Rightarrow>
        ((case r of Some e \<Rightarrow> Some e | None \<Rightarrow> r'), s'))"

text \<open>Sequencing: what follows an \<^verbatim>\<open>await\<close> runs only when nothing was raised.\<close>

definition then_do :: "gerror option \<times> state \<Rightarrow> (state \<Rightarrow> (gerror + 'a) \<times> state) \<Rightarrow> (gerror + 'a) \<times> state" where
  "then_do r k = (case r of (Some e, s) \<Rightarrow> (Inl e, s) | (None, s) \<Rightarrow> k s)"

section \<open>Arguments and imported helpers\<close>

text \<open>The arguments of \<^verbatim>\<open>fastCheckout\<close>, after the defaults of its parameter list.
  \<^verbatim>\<open>emitter\<close> tells whether an emitter is present; \<^verbatim>\<open>ref\<close> is \<open>None\<close> when
  \<^verbatim>\<open>undefined\<close>, \<^verbatim>\<open>pattern\<close> is \<open>None\<close> when \<^verbatim>\<open>null\<close>.\<close>

record args =
  dir :: string
  gitdir :: string
  emitter :: bool
  emitterPrefix :: string
  remote :: string
  ref :: "string option"
  filepaths :: "string list"
  pattern :: "string option"
  noCheckout :: bool
  dryRun :: bool

text \<open>The pure helpers \<^verbatim>\<open>fastCheckout\<close> imports from \<^verbatim>\<open>utils/\<close> and from
  \<^verbatim>\<open>globrex\<close>; their code is not part of the sources at hand, so they are parameters.
  \<^verbatim>\<open>globrex\<close> stands for \<^verbatim>\<open>globrex(pattern, opts).regex.test\<close>.\<close>

record helpers =
  patternRoot :: "string \<Rightarrow> string"
  globrex :: "string \<Rightarrow> string \<Rightarrow> bool"
  join :: "string \<Rightarrow> string \<Rightarrow> string"
  worthWalking :: "string \<Rightarrow> string \<Rightarrow> bool"
  normalizeMode :: "jsval \<Rightarrow> int"

text \<open>\<^verbatim>\<open>String.prototype.replace\<close> with a string pattern: the first occurrence only.\<close>

fun replace :: "string \<Rightarrow> string \<Rightarrow> string \<Rightarrow> string" where
  "replace pat rep [] = (if pat = [] then rep else [])"
| "replace pat rep (c # cs) =
     (if take (length pat) (c # cs) = pat then rep @ drop (length pat) (c # cs)
      else c # replace pat rep cs)"

text \<open>Lines 119--128: the pattern is split into its literal root and the glob proper, and
  the base paths are the \<^verbatim>\<open>filepaths\<close> joined with the root.\<close>

definition patternPart :: "helpers \<Rightarrow> args \<Rightarrow> string" where
  "patternPart h a =
     (case pattern a of
        None \<Rightarrow> []
      | Some p \<Rightarrow> if p = [] then [] else patternRoot h p)"

definition patternGlobrex :: "helpers \<Rightarrow> args \<Rightarrow> (string \<Rightarrow> bool) option" where
  "patternGlobrex h a =
     (case pattern a of
        None \<Rightarrow> None
      | Some p \<Rightarrow>
          if p = [] then None
          else let pp = patternRoot h p;
                   p' = (if pp \<noteq> [] then replace (pp @ ''/'') [] p else p)
               in Some (globrex h p'))"

definition bases :: "helpers \<Rightarrow> args \<Rightarrow> string list" where
  "bases h a = map (\<lambda>filepath. join h filepath (patternPart h a)) (filepaths a)"

section \<open>The planner: the \<^verbatim>\<open>map\<close> callback of the walk\<close>

definition emit_progress :: "args \<Rightarrow> string \<Rightarrow> nat option \<Rightarrow> state \<Rightarrow> state" where
  "emit_progress a phase tot s =
     (if emitter a
      then s\<lparr>calls := calls s @ [Emit (emitterPrefix a @ ''progress'') phase (count s + 1) tot],
             count := count s + 1\<rparr>
      else s)"

text \<open>Lines 180--190, the late filter against file names.\<close>

definition late_filter :: "helpers \<Rightarrow> args \<Rightarrow> string \<Rightarrow> bool" where
  "late_filter h a fp =
     (case patternGlobrex h a of
        None \<Rightarrow> True
      | Some test \<Rightarrow> list_ex (\<lambda>base. test (replace (base @ ''/'') [] fp)) (bases h a))"

definition key :: "triple \<Rightarrow> string" where
  "key tr = (case tr of (commit, workdir, stage) \<Rightarrow>
     map (\<lambda>b. if b then CHR ''1'' else CHR ''0'') [exists stage, exists commit, exists workdir])"

definition submodule_log :: "state \<Rightarrow> state" where
  "submodule_log s = log (ConsoleLog (LogError (NotImplementedFail ''submodule support''))) s"

text \<open>\<^verbatim>\<open>entry.populateStat()\<close> and \<^verbatim>\<open>entry.populateHash()\<close> on an entry of the given
  walker: the call and what it raises.\<close>

definition populateStat :: "walker \<Rightarrow> entry \<Rightarrow> call \<times> gerror option" where
  "populateStat wk e = (PopulateStat wk (fullpath e), stat_raises e)"

definition populateHash :: "walker \<Rightarrow> entry \<Rightarrow> call \<times> gerror option" where
  "populateHash wk e = (PopulateHash wk (fullpath e), hash_raises e)"

text \<open>\<^verbatim>\<open>case '010'\<close>, lines 213--236.\<close>

definition case_010 :: "entry \<Rightarrow> state \<Rightarrow> (gerror + op option) \<times> state" where
  "case_010 commit s =
     then_do (await_all [populateStat TREE commit] s) (\<lambda>s1.
       if type commit = ''tree'' then (Inr (Some [Str ''mkdir'', Str (fullpath commit)]), s1)
       else if type commit = ''blob'' then
         then_do (await_all [populateHash TREE commit] s1) (\<lambda>s2.
           (Inr (Some [Str ''create'', Str (fullpath commit), oid commit, mode commit]), s2))
       else if type commit = ''commit'' then (Inr None, submodule_log s1)
       else (Inr (Some [Str ''error'', Str (''new entry Unhandled type '' @ type commit)]), s1))"

text \<open>\<^verbatim>\<open>case '011'\<close>, lines 238--283. The \<^verbatim>\<open>commit-tree\<close> case has neither
  \<^verbatim>\<open>return\<close> nor \<^verbatim>\<open>break\<close>: after logging, control falls through into the
  \<^verbatim>\<open>commit-blob\<close> case.\<close>

definition case_011 :: "helpers \<Rightarrow> entry \<Rightarrow> entry \<Rightarrow> state \<Rightarrow> (gerror + op option) \<times> state" where
  "case_011 h commit workdir s =
     then_do (await_all [populateStat TREE commit, populateStat WORKDIR workdir] s) (\<lambda>s1.
       let types = type commit @ ''-'' @ type workdir in
       if types = ''tree-tree'' then (Inr None, s1)
       else if types = ''tree-blob'' \<or> types = ''blob-tree''
         then (Inr (Some [Str ''conflict'', Str (fullpath commit)]), s1)
       else if types = ''blob-blob'' then
         then_do (await_all [populateHash TREE commit, populateHash WORKDIR workdir] s1) (\<lambda>s2.
           if oid commit \<noteq> oid workdir then (Inr (Some [Str ''conflict'', Str (fullpath commit)]), s2)
           else if mode commit \<noteq> Str (toString 8 (normalizeMode h (mode workdir)))
             then (Inr (Some [Str ''conflict'', Str (fullpath commit)]), s2)
           else (Inr (Some [Str ''create-index'', Str (fullpath commit), oid commit, mode commit]), s2))
       else if types = ''commit-tree''
         then (Inr (Some [Str ''conflict'', Str (fullpath commit)]), submodule_log s1)
       else if types = ''commit-blob'' then (Inr (Some [Str ''conflict'', Str (fullpath commit)]), s1)
       else (Inr (Some [Str ''error'', Str (''new entry Unhandled type '' @ type commit)]), s1))"

text \<open>\<^verbatim>\<open>case '101'\<close>, lines 291--310. The default case returns a one-element array.\<close>

definition case_101 :: "entry \<Rightarrow> entry \<Rightarrow> state \<Rightarrow> (gerror + op option) \<times> state" where
  "case_101 workdir stage s =
     then_do (await_all [populateStat STAGE stage] s) (\<lambda>s1.
       if type stage = ''tree'' then (Inr (Some [Str ''rmdir'', Str (fullpath stage)]), s1)
       else if type stage = ''blob'' then
         then_do (await_all [populateHash STAGE stage, populateHash WORKDIR workdir] s1) (\<lambda>s2.
           if oid stage \<noteq> oid workdir then (Inr (Some [Str ''conflict'', Str (fullpath stage)]), s2)
           else (Inr (Some [Str ''delete'', Str (fullpath stage)]), s2))
       else (Inr (Some [Str (''delete entry Unhandled type '' @ type stage)]), s1))"

text \<open>\<^verbatim>\<open>case '110'\<close> and \<^verbatim>\<open>case '111'\<close>, lines 312--355.\<close>

definition case_110_111 :: "helpers \<Rightarrow> triple \<Rightarrow> state \<Rightarrow> (gerror + op option) \<times> state" where
  "case_110_111 h tr s = (case tr of (commit, workdir, stage) \<Rightarrow>
     then_do (await_all [populateStat TREE commit, populateStat STAGE stage] s) (\<lambda>s1.
       let types = type stage @ ''-'' @ type commit in
       if types = ''tree-tree'' then (Inr None, s1)
       else if types = ''blob-blob'' then
         then_do (if exists workdir then await_all [populateStat WORKDIR workdir] s1 else (None, s1)) (\<lambda>s2.
         then_do (if exists workdir
                  then await_all [populateHash STAGE stage, populateHash TREE commit,
                                  populateHash WORKDIR workdir] s2
                  else (None, s2)) (\<lambda>s3.
           if exists workdir \<and> oid workdir \<noteq> oid stage \<and> oid workdir \<noteq> oid commit
             then (Inr (Some [Str ''conflict'', Str (fullpath commit)]), s3)
           else if mode commit \<noteq> Str (toString 8 (normalizeMode h (mode stage))) then
             then_do (await_all [populateHash TREE commit] s3) (\<lambda>s4.
               (Inr (Some [Str ''update'', Str (fullpath commit), oid commit, mode commit, Bool True]), s4))
           else
             then_do (await_all [populateHash TREE commit, populateHash STAGE stage] s3) (\<lambda>s4.
               if oid commit \<noteq> oid stage
                 then (Inr (Some [Str ''update'', Str (fullpath commit), oid commit, mode commit,
                                  Bool False]), s4)
               else (Inr None, s4))))
       else if types = ''tree-blob''
         then (Inr (Some [Str ''update-dir-to-blob'', Str (fullpath commit), oid commit]), s1)
       else if types = ''blob-tree''
         then (Inr (Some [Str ''update-blob-to-tree'', Str (fullpath commit)]), s1)
       else (Inr (Some [Str ''error'', Str (''update entry Unhandled type '' @ types)]), s1)))"

text \<open>The \<^verbatim>\<open>switch (key)\<close> of lines 207--356.\<close>

definition planner :: "helpers \<Rightarrow> triple \<Rightarrow> state \<Rightarrow> (gerror + op option) \<times> state" where
  "planner h tr s = (case tr of (commit, workdir, stage) \<Rightarrow>
     (let k = key tr in
      if k = ''000'' then (Inr None, s)
      else if k = ''001'' then (Inr None, s)
      else if k = ''010'' then case_010 commit s
      else if k = ''011'' then case_011 h commit workdir s
      else if k = ''100'' then (Inr (Some [Str ''delete-index'', Str (fullpath stage)]), s)
      else if k = ''101'' then case_101 workdir stage s
      else if k = ''110'' \<or> k = ''111'' then case_110_111 h tr s
      else (Inr None, s)))"

text \<open>The whole callback, lines 177--357: the root and the paths the pattern rejects yield
  nothing; every other triple is counted in a progress event and classified. The callback
  raises what a populate call raises.\<close>

definition map_fn :: "helpers \<Rightarrow> args \<Rightarrow> triple \<Rightarrow> state \<Rightarrow> (gerror + op option) \<times> state" where
  "map_fn h a tr s = (case tr of (commit, workdir, stage) \<Rightarrow>
     if fullpath commit = ''.'' then (Inr None, s)
     else if \<not> late_filter h a (fullpath commit) then (Inr None, s)
     else planner h tr (emit_progress a ''Analyzing workdir'' None s))"

section \<open>The walk and its reducer\<close>

text \<open>Line 173--176, the \<^verbatim>\<open>filter\<close> callback: match against the base paths.\<close>

definition filter_fn :: "helpers \<Rightarrow> args \<Rightarrow> triple \<Rightarrow> bool" where
  "filter_fn h a tr = (case tr of (commit, workdir, stage) \<Rightarrow>
     list_ex (\<lambda>base. worthWalking h (fullpath commit) base) (bases h a))"

text \<open>Modelled from the spec: \<^verbatim>\<open>utils/flat.js\<close>, which is not among the sources at hand;
  it flattens the children one level.\<close>

definition flat :: "'a list list \<Rightarrow> 'a list" where
  "flat xss = concat xss"

text \<open>Lines 359--370, the \<^verbatim>\<open>reduce\<close> callback. \<^verbatim>\<open>!parent\<close> holds exactly when the
  \<^verbatim>\<open>map\<close> callback returned nothing: an array is never falsy.\<close>

definition reduce :: "op option \<Rightarrow> op list list \<Rightarrow> op list" where
  "reduce parent children =
     (let children = flat children in
      case parent of
        None \<Rightarrow> children
      | Some p \<Rightarrow> if elem p 0 = Str ''rmdir'' then children @ [p] else p # children)"

text \<open>The union of the three trees as the walk sees it: at every path the triple of
  entries, and below it the triples of the children, in the order visited.\<close>

datatype tnode = TNode triple "tnode list"

text \<open>Modelled from the spec: \<^verbatim>\<open>walkBeta1\<close> (\<^verbatim>\<open>commands/walkBeta1.js\<close>), which is not
  among the sources at hand. It is a pre-order walk (section 4.2): \<^verbatim>\<open>filter\<close> decides
  whether an entry is retained and descended into, \<^verbatim>\<open>map\<close> is called for every retained
  entry, and \<^verbatim>\<open>reduce\<close> folds the result of the entry with the results of its retained
  children, post-order. An entry that is not retained has no result. The planner is
  sequential (section 5): the children of a directory are walked one after the other in
  the order visited. The walk raises what the callback raises, and ends there.\<close>

fun walk :: "(triple \<Rightarrow> bool) \<Rightarrow> (triple \<Rightarrow> state \<Rightarrow> (gerror + op option) \<times> state) \<Rightarrow>
    (op option \<Rightarrow> op list list \<Rightarrow> op list) \<Rightarrow> tnode \<Rightarrow> state \<Rightarrow> (gerror + op list option) \<times> state"
  and walk_children :: "(triple \<Rightarrow> bool) \<Rightarrow> (triple \<Rightarrow> state \<Rightarrow> (gerror + op option) \<times> state) \<Rightarrow>
    (op option \<Rightarrow> op list list \<Rightarrow> op list) \<Rightarrow> tnode list \<Rightarrow> state \<Rightarrow> (gerror + op list list) \<times> state"
where
  "walk flt mp red (TNode entry children) s =
     (if flt entry then
        (case mp entry s of
           (Inl e, s1) \<Rightarrow> (Inl e, s1)
         | (Inr parent, s1) \<Rightarrow>
             (case walk_children flt mp red children s1 of
                (Inl e, s2) \<Rightarrow> (Inl e, s2)
              | (Inr walked, s2) \<Rightarrow> (Inr (Some (red parent walked)), s2)))
      else (Inr None, s))"
| "walk_children flt mp red [] s = (Inr [], s)"
| "walk_children flt mp red (c # cs) s =
     (case walk flt mp red c s of
        (Inl e, s1) \<Rightarrow> (Inl e, s1)
      | (Inr r, s1) \<Rightarrow>
          (case walk_children flt mp red cs s1 of
             (Inl e, s2) \<Rightarrow> (Inl e, s2)
           | (Inr rs, s2) \<Rightarrow> (Inr (case r of None \<Rightarrow> rs | Some ops \<Rightarrow> ops # rs), s2)))"

section \<open>The stateful collaborators\<close>

text \<open>
  The reference manager, the configuration store, the filesystem, the object store, the
  index manager and the three tree walkers answer according to the state of the repository
  and of the disk, which every recorded call may have changed. Each is therefore a function
  of the calls made so far (the empty list standing for the state the operation starts in)
  and of its arguments. A call that raises answers with the error.
  \<^verbatim>\<open>trees\<close> is what \<^verbatim>\<open>TREE\<close>, \<^verbatim>\<open>WORKDIR\<close> and \<^verbatim>\<open>STAGE\<close> present to the walk, with what
  their populate calls answer during it, or the error with which reading them fails.
  \<^verbatim>\<open>fs_read\<close> is not called by the operation; it tells what a file holds, which is what a
  statement about the content of \<^verbatim>\<open>HEAD\<close> before the operation refers to.
\<close>

record world =
  resolve :: "call list \<Rightarrow> string \<Rightarrow> string \<Rightarrow> gerror + string"
  expand :: "call list \<Rightarrow> string \<Rightarrow> string \<Rightarrow> gerror + string"
  config :: "call list \<Rightarrow> string \<Rightarrow> string \<Rightarrow> string \<Rightarrow> gerror option"
  fs_write :: "call list \<Rightarrow> string \<Rightarrow> string \<Rightarrow> int option \<Rightarrow> gerror option"
  fs_writelink :: "call list \<Rightarrow> string \<Rightarrow> string \<Rightarrow> gerror option"
  fs_rm :: "call list \<Rightarrow> string \<Rightarrow> gerror option"
  fs_rmdir :: "call list \<Rightarrow> string \<Rightarrow> gerror option"
  fs_mkdir :: "call list \<Rightarrow> string \<Rightarrow> gerror option"
  fs_lstat :: "call list \<Rightarrow> string \<Rightarrow> gerror + stats"
  fs_read :: "call list \<Rightarrow> string \<Rightarrow> gerror + string"
  readObject :: "call list \<Rightarrow> string \<Rightarrow> jsval \<Rightarrow> gerror + string"
  acquire :: "call list \<Rightarrow> string \<Rightarrow> gerror option"
  trees :: "call list \<Rightarrow> gerror + tnode"


text \<open>
  \<^verbatim>\<open>await Promise.all(xs.map(handler))\<close> with an \<^verbatim>\<open>async\<close> handler. Every handler is
  started, in the order of the array, and runs up to its first \<^verbatim>\<open>await\<close>, before any
  handler goes on; a handler then goes on each time the call it awaits has completed. The
  model takes the schedule in which the awaited calls complete in the order made: in every
  round each handler that has not settled runs from one \<^verbatim>\<open>await\<close> to the next. A handler
  is given by its step: from where it stands (\<open>'st\<close>) it either stands at its next
  \<^verbatim>\<open>await\<close> or has settled, fulfilled (\<open>None\<close>) or rejected with an error. The whole is
  rejected with the first rejection; the handlers that are still running then run on, and
  the calls they make are recorded too.
\<close>

datatype 'st status = Pending 'st | Settled "gerror option"

fun rejection :: "'st status \<Rightarrow> gerror list" where
  "rejection (Settled (Some e)) = [e]"
| "rejection st = []"

fun sweep :: "('x \<Rightarrow> 'st \<Rightarrow> state \<Rightarrow> 'st status \<times> state) \<Rightarrow> ('x \<times> 'st status) list \<Rightarrow> state \<Rightarrow>
    ('x \<times> 'st status) list \<times> gerror list \<times> state" where
  "sweep step [] s = ([], [], s)"
| "sweep step ((x, Settled r) # hs) s =
     (case sweep step hs s of (hs', es, s') \<Rightarrow> ((x, Settled r) # hs', es, s'))"
| "sweep step ((x, Pending st) # hs) s =
     (case step x st s of (st', s1) \<Rightarrow>
        (case sweep step hs s1 of (hs', es, s2) \<Rightarrow> ((x, st') # hs', rejection st' @ es, s2)))"

fun rounds :: "nat \<Rightarrow> ('x \<Rightarrow> 'st \<Rightarrow> state \<Rightarrow> 'st status \<times> state) \<Rightarrow> ('x \<times> 'st status) list \<Rightarrow> state \<Rightarrow>
    ('x \<times> 'st status) list \<times> gerror list \<times> state" where
  "rounds 0 step hs s = (hs, [], s)"
| "rounds (Suc n) step hs s =
     (case sweep step hs s of (hs1, es1, s1) \<Rightarrow>
        (case rounds n step hs1 s1 of (hs2, es2, s2) \<Rightarrow> (hs2, es1 @ es2, s2)))"

text \<open>\<open>n\<close> is the number of rounds after which every handler has settled: one more than
  the largest number of awaits of a handler.\<close>

definition promise_all :: "nat \<Rightarrow> ('x \<Rightarrow> 'st \<Rightarrow> state \<Rightarrow> 'st status \<times> state) \<Rightarrow> 'st \<Rightarrow> 'x list \<Rightarrow> state \<Rightarrow>
    gerror option \<times> state" where
  "promise_all n step start xs s =
     (case rounds n step (map (\<lambda>x. (x, Pending start)) xs) s of
        (hs, es, s') \<Rightarrow> ((case es of [] \<Rightarrow> None | e # es' \<Rightarrow> Some e), s'))"

text \<open>\<^verbatim>\<open>GitIndexManager.acquire({ fs, filepath }, closure)\<close>.\<close>

definition with_index :: "world \<Rightarrow> args \<Rightarrow> (state \<Rightarrow> gerror option \<times> state) \<Rightarrow> state \<Rightarrow> gerror option \<times> state" where
  "with_index w a closure s =
     (case effect (IndexAcquire (gitdir a @ ''/index'')) (acquire w (calls s) (gitdir a @ ''/index'')) s of
        (Some e, s1) \<Rightarrow> (Some e, s1)
      | (None, s1) \<Rightarrow> closure s1)"

section \<open>The aggregator and the four phases of the applier\<close>

text \<open>Lines 381--391.\<close>

definition conflicts :: "op list \<Rightarrow> jsval list" where
  "conflicts ops = map (\<lambda>op. elem op 1) (filter (\<lambda>op. elem op 0 = Str ''conflict'') ops)"

definition errors :: "op list \<Rightarrow> jsval list" where
  "errors ops = map (\<lambda>op. elem op 1) (filter (\<lambda>op. elem op 0 = Str ''error'') ops)"

definition filepath_of :: "args \<Rightarrow> jsval \<Rightarrow> string" where
  "filepath_of a fullpath' = dir a @ ''/'' @ template fullpath'"


text \<open>Lines 404--430: deletions. The handler of a \<^verbatim>\<open>delete\<close> op awaits \<^verbatim>\<open>fs.rm\<close>; the
  handler of a \<^verbatim>\<open>delete-index\<close> op awaits nothing and is done when started.\<close>

datatype phase1_at = P1_start | P1_rm "gerror option"

definition phase1_step :: "world \<Rightarrow> args \<Rightarrow> nat \<Rightarrow> op \<Rightarrow> phase1_at \<Rightarrow> state \<Rightarrow> phase1_at status \<times> state" where
  "phase1_step w a tot op at s =
     (let method = elem op 0; fullpath' = elem op 1; filepath = filepath_of a fullpath';
          finish = (\<lambda>s. (Settled None, emit_progress a ''Updating workdir'' (Some tot)
                                        (log (IndexDelete fullpath') s)))
      in case at of
           P1_start \<Rightarrow>
             if method = Str ''delete''
             then (Pending (P1_rm (fs_rm w (calls s) filepath)), log (FsRm filepath) s)
             else finish s
         | P1_rm None \<Rightarrow> finish s
         | P1_rm (Some e) \<Rightarrow> (Settled (Some e), s))"

definition phase1 :: "world \<Rightarrow> args \<Rightarrow> nat \<Rightarrow> op list \<Rightarrow> state \<Rightarrow> gerror option \<times> state" where
  "phase1 w a tot ops s =
     with_index w a
       (promise_all 2 (phase1_step w a tot) P1_start
          (filter (\<lambda>op. elem op 0 = Str ''delete'' \<or> elem op 0 = Str ''delete-index'') ops)) s"

text \<open>Lines 432--453: the directories are removed one after the other; a directory that
  is not empty is logged and left, any other failure ends the loop and the operation.\<close>

fun phase2 :: "world \<Rightarrow> args \<Rightarrow> nat \<Rightarrow> op list \<Rightarrow> state \<Rightarrow> gerror option \<times> state" where
  "phase2 w a tot [] s = (None, s)"
| "phase2 w a tot (op # ops) s =
     (let method = elem op 0; fullpath' = elem op 1 in
      if method = Str ''rmdir'' then
        (let filepath = filepath_of a fullpath' in
         case effect (FsRmdir filepath) (fs_rmdir w (calls s) filepath) s of
           (None, s1) \<Rightarrow> phase2 w a tot ops (emit_progress a ''Updating workdir'' (Some tot) s1)
         | (Some e, s1) \<Rightarrow>
             if e = FsError ''ENOTEMPTY''
             then phase2 w a tot ops
                    (log (ConsoleLog (LogText (''Did not delete '' @ template fullpath' @
                                               '' because directory is not empty''))) s1)
             else (Some e, s1))
      else phase2 w a tot ops s)"


text \<open>Lines 455--469: the directories are made.\<close>

datatype phase3_at = P3_start | P3_mkdir "gerror option"

definition phase3_step :: "world \<Rightarrow> args \<Rightarrow> nat \<Rightarrow> op \<Rightarrow> phase3_at \<Rightarrow> state \<Rightarrow> phase3_at status \<times> state" where
  "phase3_step w a tot op at s =
     (let fullpath' = elem op 1; filepath = filepath_of a fullpath'
      in case at of
           P3_start \<Rightarrow> (Pending (P3_mkdir (fs_mkdir w (calls s) filepath)), log (FsMkdir filepath) s)
         | P3_mkdir None \<Rightarrow> (Settled None, emit_progress a ''Updating workdir'' (Some tot) s)
         | P3_mkdir (Some e) \<Rightarrow> (Settled (Some e), s))"

definition phase3 :: "world \<Rightarrow> args \<Rightarrow> nat \<Rightarrow> op list \<Rightarrow> state \<Rightarrow> gerror option \<times> state" where
  "phase3 w a tot ops s =
     promise_all 2 (phase3_step w a tot) P3_start (filter (\<lambda>op. elem op 0 = Str ''mkdir'') ops) s"

text \<open>Lines 480--529, the handler of one op of phase 4. It awaits \<^verbatim>\<open>readObject\<close>, then
  \<^verbatim>\<open>fs.rm\<close> when \<^verbatim>\<open>chmod\<close> is set, then the write by the declared mode, then \<^verbatim>\<open>fs.lstat\<close>;
  the handler of a \<^verbatim>\<open>create-index\<close> op awaits \<^verbatim>\<open>fs.lstat\<close> only. Whatever is raised inside
  is caught and logged, so the handler itself is never rejected (\<^verbatim>\<open>0o777\<close> is 511,
  \<^verbatim>\<open>0o755\<close> is 493).\<close>

datatype phase4_at =
    P4_start
  | P4_read "gerror + string"
  | P4_rm string "gerror option"
  | P4_write "gerror option"
  | P4_lstat "gerror + stats"

definition caught :: "gerror \<Rightarrow> state \<Rightarrow> phase4_at status \<times> state" where
  "caught e s = (Settled None, log (ConsoleLog (LogError e)) s)"

text \<open>Lines 491--504: the write by the declared mode.\<close>

definition write_by_mode :: "world \<Rightarrow> string \<Rightarrow> jsval \<Rightarrow> jsval \<Rightarrow> string \<Rightarrow> state \<Rightarrow> phase4_at status \<times> state" where
  "write_by_mode w filepath oid' mode' object s =
     (if mode' = Str ''100644''
        then (Pending (P4_write (fs_write w (calls s) filepath object None)),
              log (FsWrite filepath object None) s)
      else if mode' = Str ''100755''
        then (Pending (P4_write (fs_write w (calls s) filepath object (Some 511))),
              log (FsWrite filepath object (Some 511)) s)
      else if mode' = Str ''120000''
        then (Pending (P4_write (fs_writelink w (calls s) filepath object)),
              log (FsWritelink filepath object) s)
      else caught (InternalFail (Message (''Invalid mode '' @ [CHR 0x22] @ template mode' @
                                          [CHR 0x22] @ '' detected in blob '' @ template oid'))) s)"

definition phase4_step :: "world \<Rightarrow> args \<Rightarrow> nat \<Rightarrow> op \<Rightarrow> phase4_at \<Rightarrow> state \<Rightarrow> phase4_at status \<times> state" where
  "phase4_step w a tot op at s =
     (let method = elem op 0; fullpath' = elem op 1; oid' = elem op 2; mode' = elem op 3;
          chmod = elem op 4; filepath = filepath_of a fullpath'
      in case at of
           P4_start \<Rightarrow>
             if method \<noteq> Str ''create-index''
             then (Pending (P4_read (readObject w (calls s) (gitdir a) oid')), s)
             else (Pending (P4_lstat (fs_lstat w (calls s) filepath)), s)
         | P4_read (Inl e) \<Rightarrow> caught e s
         | P4_read (Inr object) \<Rightarrow>
             if truthy chmod
             then (Pending (P4_rm object (fs_rm w (calls s) filepath)), log (FsRm filepath) s)
             else write_by_mode w filepath oid' mode' object s
         | P4_rm object (Some e) \<Rightarrow> caught e s
         | P4_rm object None \<Rightarrow> write_by_mode w filepath oid' mode' object s
         | P4_write (Some e) \<Rightarrow> caught e s
         | P4_write None \<Rightarrow> (Pending (P4_lstat (fs_lstat w (calls s) filepath)), s)
         | P4_lstat (Inl e) \<Rightarrow> caught e s
         | P4_lstat (Inr st) \<Rightarrow>
             (let st' = (if mode' = Str ''100755'' then st\<lparr>stats.mode := 493\<rparr> else st) in
              (Settled None, emit_progress a ''Updating workdir'' (Some tot)
                               (log (IndexInsert fullpath' st' oid') s))))"

definition phase4 :: "world \<Rightarrow> args \<Rightarrow> nat \<Rightarrow> op list \<Rightarrow> state \<Rightarrow> gerror option \<times> state" where
  "phase4 w a tot ops s =
     with_index w a
       (promise_all 5 (phase4_step w a tot) P4_start
          (filter (\<lambda>op. elem op 0 = Str ''create'' \<or> elem op 0 = Str ''create-index'' \<or>
                        elem op 0 = Str ''update'') ops)) s"

text \<open>Lines 402--533: the counter is reset, the total is the length of the plan, and the
  four phases run in sequence; a phase that fails ends the operation.\<close>

definition phases :: "world \<Rightarrow> args \<Rightarrow> nat \<Rightarrow> op list \<Rightarrow> state \<Rightarrow> gerror option \<times> state" where
  "phases w a tot ops s =
     (case phase1 w a tot ops s of
        (Some e, s1) \<Rightarrow> (Some e, s1)
      | (None, s1) \<Rightarrow>
     (case phase2 w a tot ops s1 of
        (Some e, s2) \<Rightarrow> (Some e, s2)
      | (None, s2) \<Rightarrow>
     (case phase3 w a tot ops s2 of
        (Some e, s3) \<Rightarrow> (Some e, s3)
      | (None, s3) \<Rightarrow> phase4 w a tot ops s3)))"

definition applier :: "world \<Rightarrow> args \<Rightarrow> op list \<Rightarrow> state \<Rightarrow> gerror option \<times> state" where
  "applier w a ops s = phases w a (length ops) ops (s\<lparr>count := 0\<rparr>)"

section \<open>The operation\<close>

text \<open>Lines 130--159: the ref is resolved; when that fails, the remote ref is resolved
  instead, and a tracking branch is set up for it.\<close>

definition resolve_oid :: "world \<Rightarrow> args \<Rightarrow> string \<Rightarrow> state \<Rightarrow> (gerror + string) \<times> state" where
  "resolve_oid w a r s =
     (case resolve w (calls s) (gitdir a) r of
        Inr oid' \<Rightarrow> (Inr oid', s)
      | Inl unresolved \<Rightarrow>
          (let remoteRef = remote a @ ''/'' @ r in
           case resolve w (calls s) (gitdir a) remoteRef of
             Inl e \<Rightarrow> (Inl e, s)
           | Inr oid' \<Rightarrow>
               (case effect (ConfigSet (gitdir a) (''branch.'' @ r @ ''.remote'') (remote a))
                       (config w (calls s) (gitdir a) (''branch.'' @ r @ ''.remote'') (remote a)) s of
                  (Some e, s1) \<Rightarrow> (Inl e, s1)
                | (None, s1) \<Rightarrow>
               (case effect (ConfigSet (gitdir a) (''branch.'' @ r @ ''.merge'') (''refs/heads/'' @ r))
                       (config w (calls s1) (gitdir a) (''branch.'' @ r @ ''.merge'') (''refs/heads/'' @ r)) s1 of
                  (Some e, s2) \<Rightarrow> (Inl e, s2)
                | (None, s2) \<Rightarrow>
               (case effect (FsWrite (gitdir a @ ''/refs/heads/'' @ r) (oid' @ [CHR 0x0A]) None)
                       (fs_write w (calls s2) (gitdir a @ ''/refs/heads/'' @ r) (oid' @ [CHR 0x0A]) None) s2 of
                  (Some e, s3) \<Rightarrow> (Inl e, s3)
                | (None, s3) \<Rightarrow> (Inr oid', s3))))))"


text \<open>Lines 170--379: the walk, and the translation of a failed read of the commit itself.
  A failure of the walkers to read a directory is taken to end the walk before any entry is
  mapped. When the root is not retained the walk has no result, and \<^verbatim>\<open>ops.filter\<close> at
  line 382 raises a \<^verbatim>\<open>TypeError\<close>.\<close>

definition rethrow :: "string \<Rightarrow> string \<Rightarrow> gerror \<Rightarrow> gerror" where
  "rethrow r oid' e = (if e = ReadObjectFail (Str oid') then CommitNotFetchedError r oid' else e)"

definition plan :: "world \<Rightarrow> helpers \<Rightarrow> args \<Rightarrow> string \<Rightarrow> string \<Rightarrow> state \<Rightarrow> (gerror + op list) \<times> state" where
  "plan w h a r oid' s =
     (case trees w (calls s) of
        Inl e \<Rightarrow> (Inl (rethrow r oid' e), s)
      | Inr t \<Rightarrow>
          (case walk (filter_fn h a) (map_fn h a) reduce t s of
             (Inl e, s1) \<Rightarrow> (Inl (rethrow r oid' e), s1)
           | (Inr None, s1) \<Rightarrow> (Inl (TypeError ''Cannot read property filter of undefined''), s1)
           | (Inr (Some ops), s1) \<Rightarrow> (Inr ops, s1)))"

text \<open>How a stretch of the body ends: by raising, by \<^verbatim>\<open>return ops\<close>, or by running on.\<close>

datatype outcome = Throw gerror | Return "op list" | Done

text \<open>Lines 166--534, the body of \<^verbatim>\<open>if (!noCheckout && HEAD !== oid)\<close>.\<close>

definition update_working_dir :: "world \<Rightarrow> helpers \<Rightarrow> args \<Rightarrow> string \<Rightarrow> string \<Rightarrow> state \<Rightarrow> outcome \<times> state" where
  "update_working_dir w h a r oid' s =
     (case plan w h a r oid' s of
        (Inl e, s1) \<Rightarrow> (Throw e, s1)
      | (Inr ops, s1) \<Rightarrow>
          if conflicts ops \<noteq> [] then (Throw (CheckoutConflictError (conflicts ops)), s1)
          else if errors ops \<noteq> [] then (Throw (InternalFail (Messages (errors ops))), s1)
          else if dryRun a then (Return ops, s1)
          else (case applier w a ops s1 of
                  (Some e, s2) \<Rightarrow> (Throw e, s2)
                | (None, s2) \<Rightarrow> (Done, s2)))"

definition startsWith :: "string \<Rightarrow> string \<Rightarrow> bool" where
  "startsWith s p = (take (length p) s = p)"

text \<open>Lines 536--539.\<close>

definition HEAD_content :: "string \<Rightarrow> string \<Rightarrow> string" where
  "HEAD_content fullRef oid' =
     (if startsWith fullRef ''refs/heads'' then ''ref: '' @ fullRef else oid') @ [CHR 0x0A]"

definition update_HEAD :: "world \<Rightarrow> args \<Rightarrow> string \<Rightarrow> string \<Rightarrow> state \<Rightarrow> gerror option \<times> state" where
  "update_HEAD w a r oid' s =
     (case expand w (calls s) (gitdir a) r of
        Inl e \<Rightarrow> (Some e, s)
      | Inr fullRef \<Rightarrow>
          effect (FsWrite (gitdir a @ ''/HEAD'') (HEAD_content fullRef oid') None)
            (fs_write w (calls s) (gitdir a @ ''/HEAD'') (HEAD_content fullRef oid') None) s)"

text \<open>Lines 111--539, the body of the outer \<^verbatim>\<open>try\<close>.\<close>

definition fastCheckout_body :: "world \<Rightarrow> helpers \<Rightarrow> args \<Rightarrow> state \<Rightarrow> outcome \<times> state" where
  "fastCheckout_body w h a s =
     (case ref a of
        None \<Rightarrow> (Throw (MissingRequiredParameterError ''checkout'' ''ref''), s)
      | Some r \<Rightarrow>
          (case resolve_oid w a r s of
             (Inl e, s1) \<Rightarrow> (Throw e, s1)
           | (Inr oid', s1) \<Rightarrow>
               (case resolve w (calls s1) (gitdir a) ''HEAD'' of
                  Inl e \<Rightarrow> (Throw e, s1)
                | Inr HEAD \<Rightarrow>
                    (case (if \<not> noCheckout a \<and> HEAD \<noteq> oid' then update_working_dir w h a r oid' s1
                           else (Done, s1)) of
                       (Done, s2) \<Rightarrow>
                         (case update_HEAD w a r oid' s2 of
                            (Some e, s3) \<Rightarrow> (Throw e, s3)
                          | (None, s3) \<Rightarrow> (Done, s3))
                     | (Throw e, s2) \<Rightarrow> (Throw e, s2)
                     | (Return ops, s2) \<Rightarrow> (Return ops, s2)))))"

text \<open>The operation: it starts with no call made and the counter at 0; whatever is raised
  is tagged with the caller and raised again; the value returned is the plan, or nothing
  (\<^verbatim>\<open>undefined\<close>).\<close>

definition fastCheckout :: "world \<Rightarrow> helpers \<Rightarrow> args \<Rightarrow> (thrown + op list option) \<times> state" where
  "fastCheckout w h a =
     (case fastCheckout_body w h a \<lparr>calls = [], count = 0\<rparr> of
        (Throw e, s) \<Rightarrow> (Inl (Thrown e ''git.checkout''), s)
      | (Return ops, s) \<Rightarrow> (Inr (Some ops), s)
      | (Done, s) \<Rightarrow> (Inr None, s))"

section \<open>Vocabulary of the properties\<close>

text \<open>The methods that the aggregator or the applier looks for in the first element of
  an op (lines 382, 388, 412, 434, 456 and 479).\<close>


definition recognized :: "jsval \<Rightarrow> bool" where
  "recognized method \<longleftrightarrow>
     method \<in> set (map Str [''mkdir'', ''rmdir'', ''create'', ''create-index'', ''update'',
                            ''delete'', ''delete-index'', ''conflict'', ''error''])"

text \<open>The calls recorded during the walk: the populate calls of the walkers, progress
  events and console output.\<close>

fun is_walk_call :: "call \<Rightarrow> bool" where
  "is_walk_call (PopulateStat wk p) = True"
| "is_walk_call (PopulateHash wk p) = True"
| "is_walk_call (Emit name phase loaded tot) = True"
| "is_walk_call (ConsoleLog l) = True"
| "is_walk_call c = False"

text \<open>\<open>beneath P X\<close>: the path \<open>X\<close> is \<open>P/Q\<close> for some \<open>Q\<close>.\<close>

definition beneath :: "string \<Rightarrow> string \<Rightarrow> bool" where
  "beneath P X \<longleftrightarrow> startsWith X (P @ ''/'')"

text \<open>\<open>must_precede x y\<close>: \<open>x\<close> and \<open>y\<close> are a pair \<open>(mkdir P, create P/Q)\<close> or a pair
  \<open>(delete P/Q, rmdir P)\<close>.\<close>

definition must_precede :: "op \<Rightarrow> op \<Rightarrow> bool" where
  "must_precede x y =
     (case (elem x 1, elem y 1) of
        (Str p, Str q) \<Rightarrow>
          (elem x 0 = Str ''mkdir'' \<and> elem y 0 = Str ''create'' \<and> beneath p q) \<or>
          (elem x 0 = Str ''delete'' \<and> elem y 0 = Str ''rmdir'' \<and> beneath q p)
      | _ \<Rightarrow> False)"

text \<open>The ops that carry the path of a directory or of a file to make or to remove, and
  the paths at or below a path \<open>F\<close>.\<close>

definition pathed :: "op \<Rightarrow> bool" where
  "pathed op \<longleftrightarrow> elem op 0 \<in> {Str ''mkdir'', Str ''create'', Str ''delete'', Str ''rmdir''}"

definition within :: "string \<Rightarrow> string \<Rightarrow> bool" where
  "within F p \<longleftrightarrow> p = F \<or> beneath F p"

definition scoped :: "string \<Rightarrow> op \<Rightarrow> bool" where
  "scoped F op \<longleftrightarrow> (pathed op \<longrightarrow> (\<exists>p. elem op 1 = Str p \<and> within F p))"

text \<open>
  What the walk guarantees about the triples it yields (sections 3 and 4.2 of the
  specification and its glossary): the three entries of a triple share their full path; the
  root is \<^verbatim>\<open>.\<close>; there is one triple per full path, so the children of a directory differ
  in their paths; and the full path of a child is the name of the child, without a \<^verbatim>\<open>/\<close>
  and not empty, after the path of its directory and a \<^verbatim>\<open>/\<close> (after nothing below the root).
\<close>

fun node_path :: "tnode \<Rightarrow> string" where
  "node_path (TNode (commit, workdir, stage) kids) = fullpath commit"

fun wf_node :: "string \<Rightarrow> tnode \<Rightarrow> bool" where
  "wf_node pre (TNode (commit, workdir, stage) kids) =
     (fullpath workdir = fullpath commit \<and> fullpath stage = fullpath commit \<and>
      take (length pre) (fullpath commit) = pre \<and>
      drop (length pre) (fullpath commit) \<noteq> [] \<and>
      CHR ''/'' \<notin> set (drop (length pre) (fullpath commit)) \<and>
      distinct (map node_path kids) \<and>
      list_all (wf_node (fullpath commit @ ''/'')) kids)"

fun wf_root :: "tnode \<Rightarrow> bool" where
  "wf_root (TNode (commit, workdir, stage) kids) =
     (fullpath commit = ''.'' \<and> fullpath workdir = ''.'' \<and> fullpath stage = ''.'' \<and>
      distinct (map node_path kids) \<and> list_all (wf_node []) kids)"

text \<open>
  The handlers of phase 4, for the statements about the whole phase. \<open>left4\<close> bounds the
  awaits a handler still has to pass after the one it stands at, and \<open>remaining\<close> the rounds
  after which it has settled. \<open>handler_call a op c\<close>: the call \<open>c\<close> is one that the handler
  of the op may make, with the mode of a write and of the stats of an insert as the op
  declares it. \<open>written\<close>: the write by the declared mode of the op, or the logged Internal
  error for a mode that is none of the three, is among the calls. \<open>reads\<close> and \<open>lstats\<close>
  follow a handler whose awaited calls succeed: where it stands, what it has obtained, and
  what it has called once it is past the write or has settled.
\<close>

fun left4 :: "phase4_at \<Rightarrow> nat" where
  "left4 P4_start = 4"
| "left4 (P4_read r) = 3"
| "left4 (P4_rm object r) = 2"
| "left4 (P4_write r) = 1"
| "left4 (P4_lstat r) = 0"

fun remaining :: "phase4_at status \<Rightarrow> nat" where
  "remaining (Settled r) = 0"
| "remaining (Pending at) = Suc (left4 at)"

fun handler_call :: "args \<Rightarrow> op \<Rightarrow> call \<Rightarrow> bool" where
  "handler_call a op (FsWrite p object m) =
     (p = filepath_of a (elem op 1) \<and>
      (m = None \<and> elem op 3 = Str ''100644'' \<or> m = Some 511 \<and> elem op 3 = Str ''100755''))"
| "handler_call a op (FsWritelink p object) =
     (p = filepath_of a (elem op 1) \<and> elem op 3 = Str ''120000'')"
| "handler_call a op (IndexInsert p st o') =
     (p = elem op 1 \<and> o' = elem op 2 \<and> (elem op 3 = Str ''100755'' \<longrightarrow> stats.mode st = 493))"
| "handler_call a op (FsRm p) = (p = filepath_of a (elem op 1) \<and> truthy (elem op 4))"
| "handler_call a op (Emit name phase loaded tot) = True"
| "handler_call a op (ConsoleLog l) = True"
| "handler_call a op c = False"

definition written :: "args \<Rightarrow> op \<Rightarrow> string \<Rightarrow> call list \<Rightarrow> bool" where
  "written a op object cs \<longleftrightarrow>
     (elem op 3 = Str ''100644'' \<longrightarrow> FsWrite (filepath_of a (elem op 1)) object None \<in> set cs) \<and>
     (elem op 3 = Str ''100755'' \<longrightarrow> FsWrite (filepath_of a (elem op 1)) object (Some 511) \<in> set cs) \<and>
     (elem op 3 = Str ''120000'' \<longrightarrow> FsWritelink (filepath_of a (elem op 1)) object \<in> set cs) \<and>
     (elem op 3 \<noteq> Str ''100644'' \<and> elem op 3 \<noteq> Str ''100755'' \<and> elem op 3 \<noteq> Str ''120000'' \<longrightarrow>
        ConsoleLog (LogError (InternalFail (Message
          (''Invalid mode '' @ [CHR 0x22] @ template (elem op 3) @ [CHR 0x22] @
           '' detected in blob '' @ template (elem op 2))))) \<in> set cs)"

fun reads :: "args \<Rightarrow> op \<Rightarrow> string \<Rightarrow> nat \<Rightarrow> phase4_at status \<Rightarrow> state \<Rightarrow> bool" where
  "reads a op object n (Pending P4_start) s = True"
| "reads a op object n (Pending (P4_read r)) s = (r = Inr object)"
| "reads a op object n (Pending (P4_rm obj r)) s = (obj = object \<and> r = None)"
| "reads a op object n st s = written a op object (drop n (calls s))"

fun lstats :: "op \<Rightarrow> string \<Rightarrow> stats \<Rightarrow> nat \<Rightarrow> phase4_at status \<Rightarrow> state \<Rightarrow> bool" where
  "lstats op object st0 n (Pending P4_start) s = True"
| "lstats op object st0 n (Pending (P4_read r)) s = (elem op 0 \<noteq> Str ''create-index'' \<and> r = Inr object)"
| "lstats op object st0 n (Pending (P4_rm obj r)) s =
     (elem op 0 \<noteq> Str ''create-index'' \<and> obj = object \<and> r = None)"
| "lstats op object st0 n (Pending (P4_write r)) s = (r = None)"
| "lstats op object st0 n (Pending (P4_lstat r)) s = (r = Inr st0)"
| "lstats op object st0 n (Settled r) s =
     (IndexInsert (elem op 1) (if elem op 3 = Str ''100755'' then st0\<lparr>stats.mode := 493\<rparr> else st0)
        (elem op 2) \<in> set (drop n (calls s)))"

section \<open>Concrete inputs\<close>

text \<open>A repository at \<^verbatim>\<open>/repo\<close> for the closed examples: helpers, arguments, entries and a
  world in which every call succeeds.\<close>

text \<open>Modelled from the spec: \<^verbatim>\<open>utils/normalizeMode.js\<close>, which is not among the sources at
  hand. Section 3: any regular file becomes \<^verbatim>\<open>100644\<close>, any file with an executable bit
  \<^verbatim>\<open>100755\<close>, a symbolic link \<^verbatim>\<open>120000\<close>, a directory \<^verbatim>\<open>040000\<close>. The theorems below hold
  for every \<^verbatim>\<open>normalizeMode\<close>; this one serves the examples.\<close>

definition normalizeMode_spec :: "jsval \<Rightarrow> int" where
  "normalizeMode_spec m =
     (case m of
        Num n \<Rightarrow>
          (let t = n div 4096 in
           if t = 4 then 16384
           else if t = 10 then 40960
           else if (n div 64) mod 2 = 1 \<or> (n div 8) mod 2 = 1 \<or> n mod 2 = 1 then 33261
           else 33188)
      | _ \<Rightarrow> 33188)"

definition example_helpers :: helpers where
  "example_helpers =
     \<lparr>patternRoot = (\<lambda>p. []), globrex = (\<lambda>p x. True),
      join = (\<lambda>x y. if y = [] then x else x @ ''/'' @ y),
      worthWalking = (\<lambda>fp base. True), normalizeMode = normalizeMode_spec\<rparr>"

definition example_args :: "string \<Rightarrow> bool \<Rightarrow> bool \<Rightarrow> args" where
  "example_args r nc dry =
     \<lparr>dir = ''/repo'', gitdir = ''/repo/.git'', emitter = True, emitterPrefix = [],
      remote = ''origin'', ref = Some r, filepaths = [''.''], pattern = None,
      noCheckout = nc, dryRun = dry\<rparr>"

definition lookup :: "(string \<times> string) list \<Rightarrow> string \<Rightarrow> gerror + string" where
  "lookup table k = (case map_of table k of Some v \<Rightarrow> Inr v | None \<Rightarrow> Inl (ResolveRefError k))"

text \<open>The world of the examples: \<open>refs\<close> gives the oid of every ref that resolves, \<open>full\<close>
  the full name of every ref that expands, \<open>files\<close> the content of the files that can be
  read, \<open>t\<close> what the walkers present. \<^verbatim>\<open>lstat\<close> reports a plain file of mode
  \<^verbatim>\<open>0o100644\<close>.\<close>

definition example_world :: "(string \<times> string) list \<Rightarrow> (string \<times> string) list \<Rightarrow>
    (string \<times> string) list \<Rightarrow> tnode \<Rightarrow> world" where
  "example_world refs full files t =
     \<lparr>resolve = (\<lambda>hist gd r. lookup refs r),
      expand = (\<lambda>hist gd r. lookup full r),
      config = (\<lambda>hist gd path v. None),
      fs_write = (\<lambda>hist path content m. None),
      fs_writelink = (\<lambda>hist path content. None),
      fs_rm = (\<lambda>hist path. None),
      fs_rmdir = (\<lambda>hist path. None),
      fs_mkdir = (\<lambda>hist path. None),
      fs_lstat = (\<lambda>hist path. Inr \<lparr>stats.mode = 33188, size = 5, mtimeMs = 0\<rparr>),
      fs_read = (\<lambda>hist path. lookup files path),
      readObject = (\<lambda>hist gd o'. Inr ''hello''),
      acquire = (\<lambda>hist path. None),
      trees = (\<lambda>hist. Inr t)\<rparr>"

definition absent :: "string \<Rightarrow> entry" where
  "absent p = \<lparr>exists = False, fullpath = p, type = ''undefined'', mode = Undefined, oid = Undefined,
      stat_raises = None, hash_raises = None\<rparr>"

definition dir_entry :: "string \<Rightarrow> entry" where
  "dir_entry p = \<lparr>exists = True, fullpath = p, type = ''tree'', mode = Str ''040000'', oid = Undefined,
      stat_raises = None, hash_raises = None\<rparr>"

definition blob_entry :: "string \<Rightarrow> jsval \<Rightarrow> string \<Rightarrow> entry" where
  "blob_entry p m o' = \<lparr>exists = True, fullpath = p, type = ''blob'', mode = m, oid = Str o',
      stat_raises = None, hash_raises = None\<rparr>"

definition gitlink_entry :: "string \<Rightarrow> jsval \<Rightarrow> string \<Rightarrow> entry" where
  "gitlink_entry p m o' = \<lparr>exists = True, fullpath = p, type = ''commit'', mode = m, oid = Str o',
      stat_raises = None, hash_raises = None\<rparr>"

definition root_of :: "tnode list \<Rightarrow> tnode" where
  "root_of kids = TNode (dir_entry ''.'', dir_entry ''.'', dir_entry ''.'') kids"

definition s0 :: state where
  "s0 = \<lparr>calls = [], count = 0\<rparr>"

text \<open>Scenario S1 of the specification: a fresh checkout of a file \<^verbatim>\<open>a\<close> and an
  executable file \<^verbatim>\<open>d/b\<close>.\<close>

definition fresh_tree :: tnode where
  "fresh_tree = root_of
     [TNode (blob_entry ''a'' (Str ''100644'') ''h1'', absent ''a'', absent ''a'') [],
      TNode (dir_entry ''d'', absent ''d'', absent ''d'')
        [TNode (blob_entry ''d/b'' (Str ''100755'') ''x1'', absent ''d/b'', absent ''d/b'') []]]"

text \<open>Scenario S3: \<^verbatim>\<open>old.txt\<close> is staged with oid \<^verbatim>\<open>b1\<close>, edited in the workdir (oid
  \<^verbatim>\<open>b2\<close>) and absent from the commit.\<close>

definition dirty_tree :: tnode where
  "dirty_tree = root_of
     [TNode (absent ''old.txt'', blob_entry ''old.txt'' (Num 33188) ''b2'',
             blob_entry ''old.txt'' (Num 33188) ''b1'') []]"

text \<open>A commit entry of a type the planner does not handle.\<close>

definition special_tree :: tnode where
  "special_tree = root_of
     [TNode (\<lparr>exists = True, fullpath = ''dev'', type = ''special'', mode = Str ''060000'',
              oid = Undefined, stat_raises = None, hash_raises = None\<rparr>,
             absent ''dev'', absent ''dev'') []]"

text \<open>A directory \<^verbatim>\<open>old\<close> with a clean file \<^verbatim>\<open>old/x\<close> that the commit no longer has, next
  to the new directory \<^verbatim>\<open>d\<close> with the new file \<^verbatim>\<open>d/b\<close>.\<close>

definition mixed_tree :: tnode where
  "mixed_tree = root_of
     [TNode (dir_entry ''d'', absent ''d'', absent ''d'')
        [TNode (blob_entry ''d/b'' (Str ''100755'') ''x1'', absent ''d/b'', absent ''d/b'') []],
      TNode (absent ''old'', dir_entry ''old'', dir_entry ''old'')
        [TNode (absent ''old/x'', blob_entry ''old/x'' (Num 33188) ''b1'',
                blob_entry ''old/x'' (Num 33188) ''b1'') []]]"

text \<open>A submodule \<^verbatim>\<open>sub\<close> of the commit whose directory exists in the workdir.\<close>

definition submodule_tree :: tnode where
  "submodule_tree = root_of
     [TNode (gitlink_entry ''sub'' (Str ''160000'') ''c1'', dir_entry ''sub'', absent ''sub'') []]"

text \<open>A modified file \<^verbatim>\<open>a\<close> that cannot be read in the workdir: hashing it raises the
  error \<^verbatim>\<open>EACCES\<close> of the filesystem.\<close>

definition unreadable_tree :: tnode where
  "unreadable_tree = root_of
     [TNode (blob_entry ''a'' (Str ''100644'') ''h2'',
             (blob_entry ''a'' (Num 33188) ''h1'')\<lparr>hash_raises := Some (FsError ''EACCES'')\<rparr>,
             blob_entry ''a'' (Num 33188) ''h1'') []]"

section \<open>The planner\<close>

text \<open>When what follows an \<^verbatim>\<open>await\<close> returns, the awaited calls have raised nothing.\<close>

lemma then_do_Inr:
  "fst (then_do p k) = Inr r \<longleftrightarrow> fst p = None \<and> fst (k (snd p)) = Inr r"
  by (cases p; cases "fst p") (auto simp add: then_do_def)

lemma case_110_111_returns:
  assumes "type stage = ''blob''" and "type commit = ''blob''"
    and "fst (case_110_111 h (commit, workdir, stage) s) = Inr r"
  shows "r =
          (if exists workdir \<and> oid workdir \<noteq> oid stage \<and> oid workdir \<noteq> oid commit
             then Some [Str ''conflict'', Str (fullpath commit)]
           else if mode commit \<noteq> Str (toString 8 (normalizeMode h (mode stage)))
             then Some [Str ''update'', Str (fullpath commit), oid commit, mode commit, Bool True]
           else if oid commit \<noteq> oid stage
             then Some [Str ''update'', Str (fullpath commit), oid commit, mode commit, Bool False]
           else None)"
  using assms
  apply (simp add: case_110_111_def then_do_Inr del: await_all.simps)
  apply (auto simp add: then_do_Inr simp del: await_all.simps split: if_splits)
  done

text \<open>
  Claim C3. For every entry triple with key 111 or 110 whose stage and commit entries are
  both blobs, the planner (the \<^verbatim>\<open>switch\<close> on the key) emits a conflict op exactly when the
  workdir entry exists and its oid differs from the oid of the stage and from the oid of
  the commit; otherwise, when the mode of the commit differs from the normalized mode of the
  stage, an update op with \<^verbatim>\<open>chmod = true\<close>; otherwise, when the oid of the commit differs
  from the oid of the stage, an update op with \<^verbatim>\<open>chmod = false\<close>; otherwise no op. This is
  what the planner returns when the populate calls of the case raise nothing, and whenever
  the planner returns at all (a populate call that raises makes the planner raise, and
  nothing is emitted). The \<^verbatim>\<open>map\<close> callback emits the same for every such triple that it
  hands to the planner, that is, unless the triple is the root or the pattern rejects its
  path.
\<close>

theorem C3_modified_blob:
  assumes "key (commit, workdir, stage) = ''111'' \<or> key (commit, workdir, stage) = ''110''"
    and "type stage = ''blob''" and "type commit = ''blob''"
  shows "let emitted =
          (if exists workdir \<and> oid workdir \<noteq> oid stage \<and> oid workdir \<noteq> oid commit
             then Some [Str ''conflict'', Str (fullpath commit)]
           else if mode commit \<noteq> Str (toString 8 (normalizeMode h (mode stage)))
             then Some [Str ''update'', Str (fullpath commit), oid commit, mode commit, Bool True]
           else if oid commit \<noteq> oid stage
             then Some [Str ''update'', Str (fullpath commit), oid commit, mode commit, Bool False]
           else None);
             succeed = (stat_raises commit = None \<and> hash_raises commit = None \<and>
                        stat_raises stage = None \<and> hash_raises stage = None \<and>
                        (exists workdir \<longrightarrow> stat_raises workdir = None \<and> hash_raises workdir = None))
         in (succeed \<longrightarrow> fst (planner h (commit, workdir, stage) s) = Inr emitted)
          \<and> (\<forall>r. fst (planner h (commit, workdir, stage) s) = Inr r \<longrightarrow> r = emitted)
          \<and> (fullpath commit \<noteq> ''.'' \<and> late_filter h a (fullpath commit) \<longrightarrow>
               (succeed \<longrightarrow> fst (map_fn h a (commit, workdir, stage) s) = Inr emitted)
             \<and> (\<forall>r. fst (map_fn h a (commit, workdir, stage) s) = Inr r \<longrightarrow> r = emitted))"
proof -
  let ?tr = "(commit, workdir, stage)"
  let ?e = "(if exists workdir \<and> oid workdir \<noteq> oid stage \<and> oid workdir \<noteq> oid commit
             then Some [Str ''conflict'', Str (fullpath commit)]
           else if mode commit \<noteq> Str (toString 8 (normalizeMode h (mode stage)))
             then Some [Str ''update'', Str (fullpath commit), oid commit, mode commit, Bool True]
           else if oid commit \<noteq> oid stage
             then Some [Str ''update'', Str (fullpath commit), oid commit, mode commit, Bool False]
           else None)"
  let ?ok = "stat_raises commit = None \<and> hash_raises commit = None \<and>
             stat_raises stage = None \<and> hash_raises stage = None \<and>
             (exists workdir \<longrightarrow> stat_raises workdir = None \<and> hash_raises workdir = None)"
  have k: "key ?tr \<noteq> ''000''" "key ?tr \<noteq> ''001''" "key ?tr \<noteq> ''010''" "key ?tr \<noteq> ''011''"
          "key ?tr \<noteq> ''100''" "key ?tr \<noteq> ''101''"
    using assms(1) by auto
  have p: "planner h ?tr s' = case_110_111 h ?tr s'" for s'
    using assms(1) k by (auto simp add: planner_def Let_def)
  have m: "map_fn h a ?tr s = case_110_111 h ?tr (emit_progress a ''Analyzing workdir'' None s)"
    if "fullpath commit \<noteq> ''.'' \<and> late_filter h a (fullpath commit)"
    using p that by (simp add: map_fn_def)
  have c: "fst (case_110_111 h ?tr s') = Inr ?e" if "?ok" for s'
    using assms(2,3) that
    by (simp add: case_110_111_def then_do_def populateStat_def populateHash_def)
  have d: "r = ?e" if "fst (case_110_111 h ?tr s') = Inr r" for s' r
    using case_110_111_returns [OF assms(2,3) that] .
  have c1: "?ok \<longrightarrow> fst (planner h ?tr s) = Inr ?e"
    using c [of s] unfolding p by blast
  have c2: "\<forall>r. fst (planner h ?tr s) = Inr r \<longrightarrow> r = ?e"
    using d [of s] unfolding p by blast
  have c3: "fullpath commit \<noteq> ''.'' \<and> late_filter h a (fullpath commit) \<longrightarrow>
               (?ok \<longrightarrow> fst (map_fn h a ?tr s) = Inr ?e)
             \<and> (\<forall>r. fst (map_fn h a ?tr s) = Inr r \<longrightarrow> r = ?e)"
  proof
    assume f: "fullpath commit \<noteq> ''.'' \<and> late_filter h a (fullpath commit)"
    show "(?ok \<longrightarrow> fst (map_fn h a ?tr s) = Inr ?e)
             \<and> (\<forall>r. fst (map_fn h a ?tr s) = Inr r \<longrightarrow> r = ?e)"
      unfolding m [OF f]
      using c [of "emit_progress a ''Analyzing workdir'' None s"]
        d [of "emit_progress a ''Analyzing workdir'' None s"] by blast
  qed
  show ?thesis
    unfolding Let_def using c1 c2 c3 by (intro conjI)
qed

text \<open>A file whose content is unchanged in the workdir and that the commit makes
  executable is updated with \<^verbatim>\<open>chmod = true\<close>.\<close>

theorem C3_modified_blob_witness:
  "(key (blob_entry ''a.txt'' (Str ''100755'') ''c1'', blob_entry ''a.txt'' (Num 33188) ''b1'',
         blob_entry ''a.txt'' (Num 33188) ''b1'') = ''111'' \<or>
    key (blob_entry ''a.txt'' (Str ''100755'') ''c1'', blob_entry ''a.txt'' (Num 33188) ''b1'',
         blob_entry ''a.txt'' (Num 33188) ''b1'') = ''110'')
   \<and> type (blob_entry ''a.txt'' (Num 33188) ''b1'') = ''blob''
   \<and> type (blob_entry ''a.txt'' (Str ''100755'') ''c1'') = ''blob''
   \<and> stat_raises (blob_entry ''a.txt'' (Str ''100755'') ''c1'') = None
   \<and> hash_raises (blob_entry ''a.txt'' (Str ''100755'') ''c1'') = None
   \<and> stat_raises (blob_entry ''a.txt'' (Num 33188) ''b1'') = None
   \<and> hash_raises (blob_entry ''a.txt'' (Num 33188) ''b1'') = None
   \<and> fullpath (blob_entry ''a.txt'' (Str ''100755'') ''c1'') \<noteq> ''.''
   \<and> late_filter example_helpers (example_args ''master'' False False)
        (fullpath (blob_entry ''a.txt'' (Str ''100755'') ''c1''))
   \<and> fst (planner example_helpers
        (blob_entry ''a.txt'' (Str ''100755'') ''c1'', blob_entry ''a.txt'' (Num 33188) ''b1'',
         blob_entry ''a.txt'' (Num 33188) ''b1'') s0)
       = Inr (Some [Str ''update'', Str ''a.txt'', Str ''c1'', Str ''100755'', Bool True])
   \<and> fst (map_fn example_helpers (example_args ''master'' False False)
        (blob_entry ''a.txt'' (Str ''100755'') ''c1'', blob_entry ''a.txt'' (Num 33188) ''b1'',
         blob_entry ''a.txt'' (Num 33188) ''b1'') s0)
       = Inr (Some [Str ''update'', Str ''a.txt'', Str ''c1'', Str ''100755'', Bool True])"
proof -
  let ?c = "blob_entry ''a.txt'' (Str ''100755'') ''c1''"
  let ?w = "blob_entry ''a.txt'' (Num 33188) ''b1''"
  have k: "key (?c, ?w, ?w) = ''111'' \<or> key (?c, ?w, ?w) = ''110''"
    by (simp add: key_def blob_entry_def)
  have t: "type ?w = ''blob''" "type ?c = ''blob''"
    by (simp_all add: blob_entry_def)
  have rc: "stat_raises ?c = None" "hash_raises ?c = None"
    and rw: "stat_raises ?w = None" "hash_raises ?w = None"
    by (simp_all add: blob_entry_def)
  have ok: "stat_raises ?c = None \<and> hash_raises ?c = None \<and>
            stat_raises ?w = None \<and> hash_raises ?w = None \<and>
            (exists ?w \<longrightarrow> stat_raises ?w = None \<and> hash_raises ?w = None)"
    using rc rw by simp
  have fp: "fullpath ?c \<noteq> ''.''"
    by (simp add: blob_entry_def)
  have f: "late_filter example_helpers (example_args ''master'' False False) (fullpath ?c)"
    by (simp add: late_filter_def patternGlobrex_def example_args_def)
  have n: "toString 8 (normalizeMode example_helpers (mode ?w)) = ''100644''"
    by (simp add: example_helpers_def normalizeMode_spec_def blob_entry_def toString_def digit_char_def)
  note th = C3_modified_blob [OF k t, of example_helpers s0 "example_args ''master'' False False",
      unfolded Let_def]
  have e: "(if exists ?w \<and> oid ?w \<noteq> oid ?w \<and> oid ?w \<noteq> oid ?c
             then Some [Str ''conflict'', Str (fullpath ?c)]
           else if mode ?c \<noteq> Str (toString 8 (normalizeMode example_helpers (mode ?w)))
             then Some [Str ''update'', Str (fullpath ?c), oid ?c, mode ?c, Bool True]
           else if oid ?c \<noteq> oid ?w
             then Some [Str ''update'', Str (fullpath ?c), oid ?c, mode ?c, Bool False]
           else None)
         = Some [Str ''update'', Str ''a.txt'', Str ''c1'', Str ''100755'', Bool True]"
    unfolding n by (simp add: blob_entry_def)
  from th [THEN conjunct1, THEN mp, OF ok]
  have r1: "fst (planner example_helpers (?c, ?w, ?w) s0)
       = Inr (Some [Str ''update'', Str ''a.txt'', Str ''c1'', Str ''100755'', Bool True])"
    unfolding e .
  from th [THEN conjunct2, THEN conjunct2, THEN mp, OF conjI [OF fp f], THEN conjunct1, THEN mp, OF ok]
  have r2: "fst (map_fn example_helpers (example_args ''master'' False False) (?c, ?w, ?w) s0)
       = Inr (Some [Str ''update'', Str ''a.txt'', Str ''c1'', Str ''100755'', Bool True])"
    unfolding e .
  show ?thesis
    using k t rc rw fp f r1 r2 by blast
qed

lemmas example_defs = example_world_def example_args_def example_helpers_def lookup_def
  absent_def dir_entry_def blob_entry_def gitlink_entry_def root_of_def s0_def

lemmas planner_defs = filter_fn_def bases_def patternPart_def patternGlobrex_def late_filter_def
  key_def map_fn_def planner_def case_010_def case_011_def case_101_def case_110_111_def
  emit_progress_def submodule_log_def log_def reduce_def flat_def elem_def
  then_do_def populateStat_def populateHash_def

lemmas operation_defs = fastCheckout_def fastCheckout_body_def resolve_oid_def plan_def
  update_working_dir_def update_HEAD_def HEAD_content_def startsWith_def conflicts_def errors_def
  effect_def rethrow_def

lemmas applier_defs = applier_def phases_def phase1_def phase1_step_def phase3_def phase3_step_def
  phase4_def phase4_step_def write_by_mode_def caught_def with_index_def filepath_of_def
  promise_all_def

text \<open>
  Claim C5. For a triple with key 011 whose commit entry is a gitlink and whose workdir
  entry is a tree, the claim expects a diagnostic and no op. The \<^verbatim>\<open>commit-tree\<close> case of
  the source logs the diagnostic and, having no \<^verbatim>\<open>return\<close>, falls through into the
  \<^verbatim>\<open>commit-blob\<close> case: a conflict op is emitted, and the checkout of a commit with the
  submodule \<^verbatim>\<open>sub\<close> fails with the CheckoutConflict error. The theorem evaluates the
  planner and the operation there.
\<close>

theorem C5_commit_tree_emits_conflict:
  "key (gitlink_entry ''sub'' (Str ''160000'') ''c1'', dir_entry ''sub'', absent ''sub'') = ''011''
   \<and> map_fn example_helpers (example_args ''master'' False False)
        (gitlink_entry ''sub'' (Str ''160000'') ''c1'', dir_entry ''sub'', absent ''sub'') s0
       = (Inr (Some [Str ''conflict'', Str ''sub'']),
          \<lparr>calls = [Emit ''progress'' ''Analyzing workdir'' 1 None,
                    PopulateStat TREE ''sub'', PopulateStat WORKDIR ''sub'',
                    ConsoleLog (LogError (NotImplementedFail ''submodule support''))],
           count = 1\<rparr>)
   \<and> fastCheckout (example_world [(''master'', ''c2''), (''HEAD'', ''c1'')]
          [(''master'', ''refs/heads/master'')] [] submodule_tree)
        example_helpers (example_args ''master'' False False)
       = (Inl (Thrown (CheckoutConflictError [Str ''sub'']) ''git.checkout''),
          \<lparr>calls = [Emit ''progress'' ''Analyzing workdir'' 1 None,
                    PopulateStat TREE ''sub'', PopulateStat WORKDIR ''sub'',
                    ConsoleLog (LogError (NotImplementedFail ''submodule support''))],
           count = 1\<rparr>)"
  by (simp add: submodule_tree_def example_defs planner_defs operation_defs)




section \<open>The applier\<close>

lemma recognizedD:
  assumes "\<not> recognized m"
  shows "m \<noteq> Str ''mkdir''" "m \<noteq> Str ''rmdir''" "m \<noteq> Str ''create''" "m \<noteq> Str ''create-index''"
    "m \<noteq> Str ''update''" "m \<noteq> Str ''delete''" "m \<noteq> Str ''delete-index''" "m \<noteq> Str ''conflict''"
    "m \<noteq> Str ''error''"
  using assms by (auto simp add: recognized_def)

lemma phase2_skip:
  "elem u 0 \<noteq> Str ''rmdir'' \<Longrightarrow> phase2 w a tot (xs @ u # ys) s = phase2 w a tot (xs @ ys) s"
proof (induction xs arbitrary: s)
  case Nil
  then show ?case by (simp add: Let_def)
next
  case (Cons x xs)
  then show ?case by (simp add: Let_def split: prod.splits option.splits)
qed

text \<open>
  Claim C10. An op \<open>u\<close> of the plan whose first element is none of the recognized methods
  is skipped by both scans of the aggregator and by all four phases of the applier: each
  gives, on the plan with \<open>u\<close>, the result and the calls it gives on the plan without \<open>u\<close>.
  The op only counts in the total of the progress events: the applier on the plan with \<open>u\<close>
  runs the phases on the plan without \<open>u\<close> with a total that is one more than its length.
\<close>

theorem C10_unrecognized_op_skipped:
  assumes "\<not> recognized (elem u 0)"
  shows "conflicts (xs @ u # ys) = conflicts (xs @ ys)
       \<and> errors (xs @ u # ys) = errors (xs @ ys)
       \<and> phase1 w a tot (xs @ u # ys) s = phase1 w a tot (xs @ ys) s
       \<and> phase2 w a tot (xs @ u # ys) s = phase2 w a tot (xs @ ys) s
       \<and> phase3 w a tot (xs @ u # ys) s = phase3 w a tot (xs @ ys) s
       \<and> phase4 w a tot (xs @ u # ys) s = phase4 w a tot (xs @ ys) s
       \<and> applier w a (xs @ u # ys) s
           = phases w a (Suc (length (xs @ ys))) (xs @ ys) (s\<lparr>count := 0\<rparr>)"
proof -
  note m = recognizedD [OF assms]
  have c: "conflicts (xs @ u # ys) = conflicts (xs @ ys)"
    using m by (simp add: conflicts_def)
  have e: "errors (xs @ u # ys) = errors (xs @ ys)"
    using m by (simp add: errors_def)
  have p1: "phase1 w a t (xs @ u # ys) s' = phase1 w a t (xs @ ys) s'" for t s'
    using m by (simp add: phase1_def)
  have p2: "phase2 w a t (xs @ u # ys) s' = phase2 w a t (xs @ ys) s'" for t s'
    using m by (simp add: phase2_skip)
  have p3: "phase3 w a t (xs @ u # ys) s' = phase3 w a t (xs @ ys) s'" for t s'
    using m by (simp add: phase3_def)
  have p4: "phase4 w a t (xs @ u # ys) s' = phase4 w a t (xs @ ys) s'" for t s'
    using m by (simp add: phase4_def)
  have ap: "applier w a (xs @ u # ys) s
              = phases w a (Suc (length (xs @ ys))) (xs @ ys) (s\<lparr>count := 0\<rparr>)"
    by (simp add: applier_def phases_def p1 p2 p3 p4 split: prod.splits option.splits)
  show ?thesis using c e p1 p2 p3 p4 ap by simp
qed

text \<open>The one-element op of key 101 after a delete op: the file is removed, its index entry
  deleted, and the only trace of the second op is the total 2 of the progress event.\<close>

theorem C10_unrecognized_op_skipped_witness:
  "\<not> recognized (elem [Str ''delete entry Unhandled type commit''] 0)
   \<and> conflicts [[Str ''delete'', Str ''old.txt''], [Str ''delete entry Unhandled type commit'']]
       = conflicts [[Str ''delete'', Str ''old.txt'']]
   \<and> errors [[Str ''delete'', Str ''old.txt''], [Str ''delete entry Unhandled type commit'']]
       = errors [[Str ''delete'', Str ''old.txt'']]
   \<and> applier (example_world [] [] [] (root_of [])) (example_args ''master'' False False)
        [[Str ''delete'', Str ''old.txt''], [Str ''delete entry Unhandled type commit'']] s0
       = (None, \<lparr>calls = [IndexAcquire ''/repo/.git/index'', FsRm ''/repo/old.txt'',
                          IndexDelete (Str ''old.txt''),
                          Emit ''progress'' ''Updating workdir'' 1 (Some 2),
                          IndexAcquire ''/repo/.git/index''],
                 count = 1\<rparr>)"
proof -
  let ?u = "[Str ''delete entry Unhandled type commit'']"
  let ?xs = "[[Str ''delete'', Str ''old.txt'']]"
  let ?w = "example_world [] [] [] (root_of [])"
  let ?a = "example_args ''master'' False False"
  have h: "\<not> recognized (elem ?u 0)"
    by (simp add: recognized_def elem_def)
  note th = C10_unrecognized_op_skipped [OF h, of ?xs "[]" ?w ?a 2 s0]
  have c: "conflicts (?xs @ ?u # []) = conflicts (?xs @ [])"
    and e: "errors (?xs @ ?u # []) = errors (?xs @ [])"
    and ap: "applier ?w ?a (?xs @ ?u # []) s0
               = phases ?w ?a (Suc (length (?xs @ []))) (?xs @ []) (s0\<lparr>count := 0\<rparr>)"
    using th by blast+
  have run: "phases ?w ?a 2 ?xs (s0\<lparr>count := 0\<rparr>)
       = (None, \<lparr>calls = [IndexAcquire ''/repo/.git/index'', FsRm ''/repo/old.txt'',
                          IndexDelete (Str ''old.txt''),
                          Emit ''progress'' ''Updating workdir'' 1 (Some 2),
                          IndexAcquire ''/repo/.git/index''],
                 count = 1\<rparr>)"
    by (simp add: phases_def phase1_def phase3_def phase4_def with_index_def effect_def log_def
        promise_all_def phase1_step_def filepath_of_def emit_progress_def elem_def
        example_world_def example_args_def s0_def Let_def eval_nat_numeral)
  from ap run have ap': "applier ?w ?a [[Str ''delete'', Str ''old.txt''], ?u] s0
       = (None, \<lparr>calls = [IndexAcquire ''/repo/.git/index'', FsRm ''/repo/old.txt'',
                          IndexDelete (Str ''old.txt''),
                          Emit ''progress'' ''Updating workdir'' 1 (Some 2),
                          IndexAcquire ''/repo/.git/index''],
                 count = 1\<rparr>)"
    by (simp add: numeral_2_eq_2)
  from c have c': "conflicts [[Str ''delete'', Str ''old.txt''], ?u] = conflicts ?xs" by simp
  from e have e': "errors [[Str ''delete'', Str ''old.txt''], ?u] = errors ?xs" by simp
  show ?thesis
    using h c' e' ap' by blast
qed

section \<open>Handlers running side by side\<close>

text \<open>What one round, and any number of rounds, of handlers preserves: the ops handled, a
  property of the state that every step preserves, the absence of rejections, and a
  property that relates the place of each handler to the state.\<close>


lemma sweep_keys: "sweep step hs s = (hs', es, s') \<Longrightarrow> map fst hs' = map fst hs"
  by (induction step hs s arbitrary: hs' es s' rule: sweep.induct) (auto split: prod.splits)

lemma keys_set: "map fst hs' = map fst hs \<Longrightarrow> fst ` set hs' = fst ` set hs"
  by (metis set_map)

lemma sweep_state:
  assumes "\<And>x st s. x \<in> K \<Longrightarrow> I s \<Longrightarrow> I (snd (step x st s))"
    and "fst ` set hs \<subseteq> K" and "I s" and "sweep step hs s = (hs', es, s')"
  shows "I s'"
  using assms(2,3,4)
proof (induction hs arbitrary: s hs' es s')
  case Nil
  then show ?case by simp
next
  case (Cons h hs)
  obtain x t where h: "h = (x, t)" by (cases h)
  show ?case
  proof (cases t)
    case (Settled r)
    with Cons h show ?thesis by (auto split: prod.splits)
  next
    case (Pending st)
    obtain st' s1 where e: "step x st s = (st', s1)" by (cases "step x st s")
    obtain hs1 es1 s2 where e2: "sweep step hs s1 = (hs1, es1, s2)" by (cases "sweep step hs s1")
    have "I s1" using assms(1) [of x s st] Cons(2,3) h e by simp
    with Cons(1) [OF _ _ e2] Cons(2) have "I s2" by simp
    with e e2 Cons(4) h Pending show ?thesis by simp
  qed
qed

lemma sweep_rejections:
  assumes "\<And>x st s. x \<in> K \<Longrightarrow> rejection (fst (step x st s)) = []"
    and "fst ` set hs \<subseteq> K" and "sweep step hs s = (hs', es, s')"
  shows "es = []"
  using assms(2,3)
proof (induction hs arbitrary: s hs' es s')
  case Nil
  then show ?case by simp
next
  case (Cons h hs)
  obtain x t where h: "h = (x, t)" by (cases h)
  show ?case
  proof (cases t)
    case (Settled r)
    with Cons h show ?thesis by (auto split: prod.splits)
  next
    case (Pending st)
    obtain st' s1 where e: "step x st s = (st', s1)" by (cases "step x st s")
    obtain hs1 es1 s2 where e2: "sweep step hs s1 = (hs1, es1, s2)" by (cases "sweep step hs s1")
    have "rejection st' = []" using assms(1) [of x st s] Cons(2) h e by simp
    moreover from Cons(1) [OF _ e2] Cons(2) have "es1 = []" by simp
    ultimately show ?thesis using e e2 Cons(3) h Pending by simp
  qed
qed

lemma sweep_status:
  assumes pres: "\<And>x st s. x \<in> K \<Longrightarrow> J x (Pending st) s \<Longrightarrow> J' x (fst (step x st s)) (snd (step x st s))"
    and settled: "\<And>x r s. J x (Settled r) s \<Longrightarrow> J' x (Settled r) s"
    and stable: "\<And>x st s y st'. y \<in> K \<Longrightarrow> J x st s \<Longrightarrow> J x st (snd (step y st' s))"
    and stable': "\<And>x st s y st'. y \<in> K \<Longrightarrow> J' x st s \<Longrightarrow> J' x st (snd (step y st' s))"
    and "fst ` set hs \<subseteq> K" and "\<forall>(x, st) \<in> set hs. J x st s"
    and "sweep step hs s = (hs', es, s')"
  shows "\<forall>(x, st) \<in> set hs'. J' x st s'"
  using assms(5,6,7)
proof (induction hs arbitrary: s hs' es s')
  case Nil
  then show ?case by simp
next
  case (Cons h hs)
  obtain x t where h: "h = (x, t)" by (cases h)
  have xk: "x \<in> K" and hk: "fst ` set hs \<subseteq> K" using Cons(2) h by simp_all
  show ?case
  proof (cases t)
    case (Settled r)
    obtain hs1 es1 s2 where e2: "sweep step hs s = (hs1, es1, s2)" by (cases "sweep step hs s")
    have "J' x (Settled r) s" using settled Cons(3) h Settled by simp
    then have "J' x (Settled r) s2"
      by (rule sweep_state [of K "J' x (Settled r)" step hs s hs1 es1 s2, rotated 2])
         (use stable' hk e2 in blast)+
    moreover from Cons(1) [OF hk _ e2] Cons(3) have "\<forall>(x, st) \<in> set hs1. J' x st s2"
      by simp
    ultimately show ?thesis using e2 Cons(4) h Settled by auto
  next
    case (Pending st)
    obtain st' s1 where e: "step x st s = (st', s1)" by (cases "step x st s")
    obtain hs1 es1 s2 where e2: "sweep step hs s1 = (hs1, es1, s2)" by (cases "sweep step hs s1")
    have "J' x st' s1" using pres [of x st s] xk Cons(3) h Pending e by simp
    then have hd: "J' x st' s2"
      by (rule sweep_state [of K "J' x st'" step hs s1 hs1 es1 s2, rotated 2])
         (use stable' hk e2 in blast)+
    have "\<forall>(y, t) \<in> set hs. J y t s1"
      using stable [of x _ _ s st] xk Cons(3) e by auto
    with Cons(1) [OF hk _ e2]
    have "\<forall>(x, st) \<in> set hs1. J' x st s2"
      by simp
    with hd e e2 Cons(4) h Pending show ?thesis by auto
  qed
qed

lemma rounds_keys: "rounds n step hs s = (hs', es, s') \<Longrightarrow> map fst hs' = map fst hs"
proof (induction n arbitrary: hs s hs' es s')
  case 0
  then show ?case by simp
next
  case (Suc n)
  obtain hs1 es1 s1 where e: "sweep step hs s = (hs1, es1, s1)" by (cases "sweep step hs s")
  obtain hs2 es2 s2 where e2: "rounds n step hs1 s1 = (hs2, es2, s2)" by (cases "rounds n step hs1 s1")
  have "map fst hs1 = map fst hs" using sweep_keys [OF e] .
  with Suc(1) [OF e2] e e2 Suc(2) show ?case by simp
qed

lemma rounds_state:
  assumes "\<And>x st s. x \<in> K \<Longrightarrow> I s \<Longrightarrow> I (snd (step x st s))"
    and "fst ` set hs \<subseteq> K" and "I s" and "rounds n step hs s = (hs', es, s')"
  shows "I s'"
  using assms(2,3,4)
proof (induction n arbitrary: hs s hs' es s')
  case 0
  then show ?case by simp
next
  case (Suc n)
  obtain hs1 es1 s1 where e: "sweep step hs s = (hs1, es1, s1)" by (cases "sweep step hs s")
  obtain hs2 es2 s2 where e2: "rounds n step hs1 s1 = (hs2, es2, s2)" by (cases "rounds n step hs1 s1")
  have k: "fst ` set hs1 \<subseteq> K"
    using keys_set [OF sweep_keys [OF e]] Suc(2) by simp
  have "I s1" using sweep_state [of K I step hs s hs1 es1 s1] assms(1) Suc(2,3) e by simp
  with Suc(1) [OF k _ e2] e e2 Suc(4) show ?case by simp
qed

lemma rounds_rejections:
  assumes "\<And>x st s. x \<in> K \<Longrightarrow> rejection (fst (step x st s)) = []"
    and "fst ` set hs \<subseteq> K" and "rounds n step hs s = (hs', es, s')"
  shows "es = []"
  using assms(2,3)
proof (induction n arbitrary: hs s hs' es s')
  case 0
  then show ?case by simp
next
  case (Suc n)
  obtain hs1 es1 s1 where e: "sweep step hs s = (hs1, es1, s1)" by (cases "sweep step hs s")
  obtain hs2 es2 s2 where e2: "rounds n step hs1 s1 = (hs2, es2, s2)" by (cases "rounds n step hs1 s1")
  have k: "fst ` set hs1 \<subseteq> K"
    using keys_set [OF sweep_keys [OF e]] Suc(2) by simp
  have "es1 = []" using sweep_rejections [of K step hs s hs1 es1 s1] assms(1) Suc(2) e by simp
  with Suc(1) [OF k e2] e e2 Suc(3) show ?case by simp
qed

lemma rounds_status:
  assumes pres: "\<And>k x st s. x \<in> K \<Longrightarrow> J k x (Pending st) s \<Longrightarrow>
                   J (Suc k) x (fst (step x st s)) (snd (step x st s))"
    and settled: "\<And>k x r s. J k x (Settled r) s \<Longrightarrow> J (Suc k) x (Settled r) s"
    and stable: "\<And>k x st s y st'. y \<in> K \<Longrightarrow> J k x st s \<Longrightarrow> J k x st (snd (step y st' s))"
    and "fst ` set hs \<subseteq> K" and "\<forall>(x, st) \<in> set hs. J k x st s"
    and "rounds n step hs s = (hs', es, s')"
  shows "\<forall>(x, st) \<in> set hs'. J (k + n) x st s'"
  using assms(4,5,6)
proof (induction n arbitrary: hs s k hs' es s')
  case 0
  then show ?case by simp
next
  case (Suc n)
  obtain hs1 es1 s1 where e: "sweep step hs s = (hs1, es1, s1)" by (cases "sweep step hs s")
  obtain hs2 es2 s2 where e2: "rounds n step hs1 s1 = (hs2, es2, s2)" by (cases "rounds n step hs1 s1")
  have ks: "fst ` set hs1 \<subseteq> K"
    using keys_set [OF sweep_keys [OF e]] Suc(2) by simp
  have "\<forall>(x, st) \<in> set hs1. J (Suc k) x st s1"
  proof (rule sweep_status [of K "J k" "J (Suc k)" step hs s hs1 es1 s1])
    show "\<And>x st s. x \<in> K \<Longrightarrow> J k x (Pending st) s \<Longrightarrow> J (Suc k) x (fst (step x st s)) (snd (step x st s))"
      using pres by blast
    show "\<And>x r s. J k x (Settled r) s \<Longrightarrow> J (Suc k) x (Settled r) s"
      using settled by blast
    show "\<And>x st s y st'. y \<in> K \<Longrightarrow> J k x st s \<Longrightarrow> J k x st (snd (step y st' s))"
      using stable by blast
    show "\<And>x st s y st'. y \<in> K \<Longrightarrow> J (Suc k) x st s \<Longrightarrow> J (Suc k) x st (snd (step y st' s))"
      using stable by blast
    show "fst ` set hs \<subseteq> K" using Suc(2) .
    show "\<forall>(x, st) \<in> set hs. J k x st s" using Suc(3) .
    show "sweep step hs s = (hs1, es1, s1)" using e .
  qed
  from Suc(1) [OF ks this e2] e e2 Suc(4) show ?case by simp
qed

lemmas step4_defs = phase4_step_def write_by_mode_def caught_def log_def emit_progress_def Let_def

lemma phase4_step_extends: "\<exists>cs. calls (snd (phase4_step w a tot op at s)) = calls s @ cs"
  by (cases at) (auto simp add: step4_defs split: sum.splits option.splits)

lemma phase4_step_fulfils: "rejection (fst (phase4_step w a tot op at s)) = []"
  by (cases at) (auto simp add: step4_defs split: sum.splits option.splits)

lemma phase4_step_remaining: "remaining (fst (phase4_step w a tot op at s)) \<le> left4 at"
  by (cases at) (auto simp add: step4_defs split: sum.splits option.splits)

lemma phase4_step_sound:
  "\<exists>cs. calls (snd (phase4_step w a tot op at s)) = calls s @ cs \<and> list_all (handler_call a op) cs"
  by (cases at) (auto simp add: step4_defs split: sum.splits option.splits)

text \<open>The rounds suffice. A handler that is at most \<open>n\<close> awaits from settling has settled
  after \<open>n\<close> rounds: after two rounds every handler of phase 1 and of phase 3, and after
  five rounds every handler of phase 4.\<close>

lemma rounds_settle:
  assumes dec: "\<And>x st s. m (fst (step x st s)) < m (Pending st)"
    and zero: "\<And>r. m (Settled r) = 0"
    and init: "\<forall>(x, st) \<in> set hs. m st \<le> n"
    and run: "rounds n step hs s = (hs', es, s')"
  shows "\<forall>(x, st) \<in> set hs'. \<exists>r. st = Settled r"
proof -
  define J where "J k x st s \<longleftrightarrow> m st \<le> n - k"
    for k :: nat and x :: 'a and st :: "'b status" and s :: state
  have "\<forall>(x, st) \<in> set hs'. J (0 + n) x st s'"
  proof (rule rounds_status [where K = UNIV and J = J and step = step and k = 0
        and n = n and s = s and hs = hs and hs' = hs' and es = es and s' = s'])
    fix k x st s
    assume "J k x (Pending st) s"
    with dec [of x st s] show "J (Suc k) x (fst (step x st s)) (snd (step x st s))"
      by (simp add: J_def)
  next
    fix k x r s
    show "J (Suc k) x (Settled r) s" by (simp add: J_def zero)
  next
    fix k x st s y st'
    assume "J k x st s"
    then show "J k x st (snd (step y st' s))" by (simp add: J_def)
  next
    show "fst ` set hs \<subseteq> UNIV" by simp
    show "\<forall>(x, st) \<in> set hs. J 0 x st s" using init by (simp add: J_def)
    show "rounds n step hs s = (hs', es, s')" using run .
  qed
  then have z: "\<forall>(x, st) \<in> set hs'. m st = 0" by (auto simp add: J_def)
  show ?thesis
  proof (intro ballI)
    fix h assume h: "h \<in> set hs'"
    obtain x st where xs: "h = (x, st)" by (cases h)
    with z h have m0: "m st = 0" by auto
    have "\<exists>r. st = Settled r"
    proof (cases st)
      case (Pending at)
      with dec [of x at s] m0 show ?thesis by simp
    next
      case (Settled r)
      then show ?thesis by simp
    qed
    with xs show "case h of (x, st) \<Rightarrow> \<exists>r. st = Settled r" by simp
  qed
qed

lemma phase1_all_settle:
  assumes "rounds 2 (phase1_step w a tot) (map (\<lambda>x. (x, Pending P1_start)) xs) s = (hs, es, s')"
  shows "\<forall>(x, st) \<in> set hs. \<exists>r. st = Settled r"
proof (rule rounds_settle [where step = "phase1_step w a tot" and n = 2 and s = s and es = es
      and s' = s' and hs = "map (\<lambda>x. (x, Pending P1_start)) xs"
      and m = "\<lambda>st. case st of Settled r \<Rightarrow> 0 | Pending P1_start \<Rightarrow> 2 | Pending (P1_rm r) \<Rightarrow> Suc 0"])
  fix x at s
  show "(case fst (phase1_step w a tot x at s) of Settled r \<Rightarrow> 0 | Pending P1_start \<Rightarrow> 2
          | Pending (P1_rm r) \<Rightarrow> Suc 0)
      < (case Pending at of Settled r \<Rightarrow> 0 | Pending P1_start \<Rightarrow> 2 | Pending (P1_rm r) \<Rightarrow> Suc 0)"
    by (cases at) (auto simp add: phase1_step_def Let_def split: option.splits)
qed (use assms in simp_all)

lemma phase3_all_settle:
  assumes "rounds 2 (phase3_step w a tot) (map (\<lambda>x. (x, Pending P3_start)) xs) s = (hs, es, s')"
  shows "\<forall>(x, st) \<in> set hs. \<exists>r. st = Settled r"
proof (rule rounds_settle [where step = "phase3_step w a tot" and n = 2 and s = s and es = es
      and s' = s' and hs = "map (\<lambda>x. (x, Pending P3_start)) xs"
      and m = "\<lambda>st. case st of Settled r \<Rightarrow> 0 | Pending P3_start \<Rightarrow> 2 | Pending (P3_mkdir r) \<Rightarrow> Suc 0"])
  fix x at s
  show "(case fst (phase3_step w a tot x at s) of Settled r \<Rightarrow> 0 | Pending P3_start \<Rightarrow> 2
          | Pending (P3_mkdir r) \<Rightarrow> Suc 0)
      < (case Pending at of Settled r \<Rightarrow> 0 | Pending P3_start \<Rightarrow> 2 | Pending (P3_mkdir r) \<Rightarrow> Suc 0)"
    by (cases at) (auto simp add: phase3_step_def Let_def split: option.splits)
qed (use assms in simp_all)

lemma phase4_all_settle:
  assumes "rounds 5 (phase4_step w a tot) (map (\<lambda>x. (x, Pending P4_start)) xs) s = (hs, es, s')"
  shows "\<forall>(x, st) \<in> set hs. \<exists>r. st = Settled r"
proof (rule rounds_settle [where step = "phase4_step w a tot" and n = 5 and s = s and es = es
      and s' = s' and hs = "map (\<lambda>x. (x, Pending P4_start)) xs" and m = remaining])
  fix x at s
  show "remaining (fst (phase4_step w a tot x at s)) < remaining (Pending at)"
    using phase4_step_remaining [of w a tot x at s] by simp
qed (use assms in simp_all)

lemma phase4_unfold:
  assumes "acquire w (calls s) (gitdir a @ ''/index'') = None"
  shows "phase4 w a tot ops s =
     (case rounds 5 (phase4_step w a tot)
             (map (\<lambda>x. (x, Pending P4_start))
                (filter (\<lambda>op. elem op 0 = Str ''create'' \<or> elem op 0 = Str ''create-index'' \<or>
                               elem op 0 = Str ''update'') ops))
             (log (IndexAcquire (gitdir a @ ''/index'')) s) of
        (hs, es, s') \<Rightarrow> ((case es of [] \<Rightarrow> None | e # es' \<Rightarrow> Some e), s'))"
  using assms by (simp add: phase4_def with_index_def effect_def promise_all_def)

lemma written_mono: "written a op object cs \<Longrightarrow> set cs \<subseteq> set cs' \<Longrightarrow> written a op object cs'"
  by (auto simp add: written_def)

lemma reads_mono:
  assumes "reads a op object n st s1" and "calls s2 = calls s1 @ cs"
  shows "reads a op object n st s2"
proof -
  have "set (drop n (calls s1)) \<subseteq> set (drop n (calls s2))"
    using assms(2) by simp
  with assms(1) show ?thesis
    by (cases "(a, op, object, n, st, s1)" rule: reads.cases) (auto intro: written_mono)
qed

lemma lstats_mono:
  assumes "lstats op object st0 n st s1" and "calls s2 = calls s1 @ cs"
  shows "lstats op object st0 n st s2"
proof -
  have "set (drop n (calls s1)) \<subseteq> set (drop n (calls s2))"
    using assms(2) by simp
  with assms(1) show ?thesis
    by (cases "(op, object, st0, n, st, s1)" rule: lstats.cases) auto
qed

lemma reads_step:
  assumes "elem op 0 \<noteq> Str ''create-index''"
    and "\<forall>hist. readObject w hist (gitdir a) (elem op 2) = Inr object"
    and "truthy (elem op 4) \<longrightarrow> (\<forall>hist. fs_rm w hist (filepath_of a (elem op 1)) = None)"
    and "reads a op object n (Pending at) s" and "n \<le> length (calls s)"
  shows "reads a op object n (fst (phase4_step w a tot op at s)) (snd (phase4_step w a tot op at s))"
proof (cases at)
  case P4_start
  with assms show ?thesis by (simp add: step4_defs)
next
  case (P4_read r)
  with assms show ?thesis by (auto simp add: step4_defs written_def)
next
  case (P4_rm obj r)
  with assms show ?thesis by (auto simp add: step4_defs written_def)
next
  case (P4_write r)
  with assms show ?thesis
    by (cases r) (auto simp add: step4_defs intro: written_mono)
next
  case (P4_lstat r)
  with assms show ?thesis
    by (cases r) (auto simp add: step4_defs intro: written_mono)
qed

lemma lstats_step:
  assumes "elem op 0 \<noteq> Str ''create-index'' \<longrightarrow>
       (\<forall>hist. readObject w hist (gitdir a) (elem op 2) = Inr object) \<and>
       (truthy (elem op 4) \<longrightarrow> (\<forall>hist. fs_rm w hist (filepath_of a (elem op 1)) = None)) \<and>
       (elem op 3 = Str ''100644'' \<and> (\<forall>hist. fs_write w hist (filepath_of a (elem op 1)) object None = None) \<or>
        elem op 3 = Str ''100755'' \<and> (\<forall>hist. fs_write w hist (filepath_of a (elem op 1)) object (Some 511) = None) \<or>
        elem op 3 = Str ''120000'' \<and> (\<forall>hist. fs_writelink w hist (filepath_of a (elem op 1)) object = None))"
    and "\<forall>hist. fs_lstat w hist (filepath_of a (elem op 1)) = Inr st0"
    and "lstats op object st0 n (Pending at) s" and "n \<le> length (calls s)"
  shows "lstats op object st0 n (fst (phase4_step w a tot op at s)) (snd (phase4_step w a tot op at s))"
proof (cases at)
  case P4_start
  with assms show ?thesis by (simp add: step4_defs)
next
  case (P4_read r)
  with assms show ?thesis by (auto simp add: step4_defs)
next
  case (P4_rm obj r)
  with assms show ?thesis by (auto simp add: step4_defs)
next
  case (P4_write r)
  with assms show ?thesis by (simp add: step4_defs)
next
  case (P4_lstat r)
  with assms show ?thesis by (simp add: step4_defs)
qed

lemma settled_remaining: "remaining st \<le> 0 \<Longrightarrow> \<exists>r. st = Settled r"
  by (cases st) simp_all

lemma phase4_settles:
  assumes pres: "\<And>at s'. n \<le> length (calls s') \<Longrightarrow> P (Pending at) s' \<Longrightarrow>
                   P (fst (phase4_step w a tot op at s')) (snd (phase4_step w a tot op at s'))"
    and mono: "\<And>st s1 s2 cs. P st s1 \<Longrightarrow> calls s2 = calls s1 @ cs \<Longrightarrow> P st s2"
    and init: "P (Pending P4_start) s1" and n: "n \<le> length (calls s1)"
    and mem: "op \<in> set xs"
    and run: "rounds 5 (phase4_step w a tot) (map (\<lambda>x. (x, Pending P4_start)) xs) s1 = (hs, es, s')"
  shows "\<exists>r. P (Settled r) s'"
proof -
  define J where "J k x st s \<longleftrightarrow>
      remaining st \<le> 5 - k \<and> n \<le> length (calls s) \<and> (x = op \<longrightarrow> P st s)" for k :: nat and x st s
  have "\<forall>(x, st) \<in> set hs. J (0 + 5) x st s'"
  proof (rule rounds_status [where K = UNIV and J = J and step = "phase4_step w a tot" and k = 0
        and n = 5 and s = s1 and hs' = hs and es = es and s' = s'])
    fix k x at s
    assume j: "J k x (Pending at) s"
    obtain cs where cs: "calls (snd (phase4_step w a tot x at s)) = calls s @ cs"
      using phase4_step_extends by blast
    have "remaining (fst (phase4_step w a tot x at s)) \<le> left4 at"
      by (rule phase4_step_remaining)
    moreover have "Suc (left4 at) \<le> 5 - k" using j by (simp add: J_def)
    ultimately have "remaining (fst (phase4_step w a tot x at s)) \<le> 5 - Suc k" by simp
    moreover have "n \<le> length (calls (snd (phase4_step w a tot x at s)))"
      using j cs by (simp add: J_def)
    moreover have "x = op \<longrightarrow> P (fst (phase4_step w a tot x at s)) (snd (phase4_step w a tot x at s))"
      using j pres by (simp add: J_def)
    ultimately show "J (Suc k) x (fst (phase4_step w a tot x at s)) (snd (phase4_step w a tot x at s))"
      by (simp add: J_def)
  next
    fix k x r s
    assume "J k x (Settled r) s"
    then show "J (Suc k) x (Settled r) s" by (simp add: J_def)
  next
    fix k x st s y at
    assume j: "J k x st s"
    obtain cs where cs: "calls (snd (phase4_step w a tot y at s)) = calls s @ cs"
      using phase4_step_extends by blast
    with j mono show "J k x st (snd (phase4_step w a tot y at s))"
      by (auto simp add: J_def)
  next
    show "fst ` set (map (\<lambda>x. (x, Pending P4_start)) xs) \<subseteq> UNIV" by simp
    show "\<forall>(x, st) \<in> set (map (\<lambda>x. (x, Pending P4_start)) xs). J 0 x st s1"
      using init n by (simp add: J_def)
    show "rounds 5 (phase4_step w a tot) (map (\<lambda>x. (x, Pending P4_start)) xs) s1 = (hs, es, s')"
      using run .
  qed
  moreover have "op \<in> fst ` set hs"
    using keys_set [OF rounds_keys [OF run]] mem by (simp add: image_image)
  ultimately obtain st where "J 5 op st s'" by auto
  then have "remaining st \<le> 0" and p: "P st s'" by (simp_all add: J_def)
  with settled_remaining obtain r where "st = Settled r" by blast
  with p show ?thesis by blast
qed

lemma phase4_written:
  assumes acq: "acquire w (calls s) (gitdir a @ ''/index'') = None"
    and mem: "op \<in> set ops" and m: "elem op 0 = Str ''create'' \<or> elem op 0 = Str ''update''"
    and rd: "\<forall>hist. readObject w hist (gitdir a) (elem op 2) = Inr object"
    and rm: "truthy (elem op 4) \<longrightarrow> (\<forall>hist. fs_rm w hist (filepath_of a (elem op 1)) = None)"
  shows "written a op object (drop (length (calls s)) (calls (snd (phase4 w a tot ops s))))"
proof -
  let ?p = "\<lambda>op. elem op 0 = Str ''create'' \<or> elem op 0 = Str ''create-index'' \<or> elem op 0 = Str ''update''"
  let ?s1 = "log (IndexAcquire (gitdir a @ ''/index'')) s"
  obtain hs es s' where run:
    "rounds 5 (phase4_step w a tot) (map (\<lambda>x. (x, Pending P4_start)) (filter ?p ops)) ?s1 = (hs, es, s')"
    by (cases "rounds 5 (phase4_step w a tot) (map (\<lambda>x. (x, Pending P4_start)) (filter ?p ops)) ?s1")
  have s': "snd (phase4 w a tot ops s) = s'"
    using phase4_unfold [OF acq, of tot ops] run by simp
  have nci: "elem op 0 \<noteq> Str ''create-index''" using m by auto
  have "\<exists>r. reads a op object (length (calls s)) (Settled r) s'"
  proof (rule phase4_settles [where n = "length (calls s)"
        and P = "reads a op object (length (calls s))" and ?s1.0 = ?s1 and xs = "filter ?p ops"
        and hs = hs and es = es and s' = s'])
    show "\<And>at s'. length (calls s) \<le> length (calls s') \<Longrightarrow>
        reads a op object (length (calls s)) (Pending at) s' \<Longrightarrow>
        reads a op object (length (calls s)) (fst (phase4_step w a tot op at s'))
          (snd (phase4_step w a tot op at s'))"
      using reads_step [OF nci rd rm] by blast
    show "\<And>st s1 s2 cs. reads a op object (length (calls s)) st s1 \<Longrightarrow> calls s2 = calls s1 @ cs \<Longrightarrow>
        reads a op object (length (calls s)) st s2"
      using reads_mono by blast
    show "reads a op object (length (calls s)) (Pending P4_start) ?s1" by simp
    show "length (calls s) \<le> length (calls ?s1)" by (simp add: log_def)
    show "op \<in> set (filter ?p ops)" using mem m by auto
    show "rounds 5 (phase4_step w a tot) (map (\<lambda>x. (x, Pending P4_start)) (filter ?p ops)) ?s1
        = (hs, es, s')" using run .
  qed
  then show ?thesis using s' by simp
qed

lemma phase4_inserted:
  assumes acq: "acquire w (calls s) (gitdir a @ ''/index'') = None"
    and mem: "op \<in> set ops"
    and m: "elem op 0 = Str ''create'' \<or> elem op 0 = Str ''create-index'' \<or> elem op 0 = Str ''update''"
    and ok: "elem op 0 \<noteq> Str ''create-index'' \<longrightarrow>
       (\<forall>hist. readObject w hist (gitdir a) (elem op 2) = Inr object) \<and>
       (truthy (elem op 4) \<longrightarrow> (\<forall>hist. fs_rm w hist (filepath_of a (elem op 1)) = None)) \<and>
       (elem op 3 = Str ''100644'' \<and> (\<forall>hist. fs_write w hist (filepath_of a (elem op 1)) object None = None) \<or>
        elem op 3 = Str ''100755'' \<and> (\<forall>hist. fs_write w hist (filepath_of a (elem op 1)) object (Some 511) = None) \<or>
        elem op 3 = Str ''120000'' \<and> (\<forall>hist. fs_writelink w hist (filepath_of a (elem op 1)) object = None))"
    and ls: "\<forall>hist. fs_lstat w hist (filepath_of a (elem op 1)) = Inr st0"
  shows "IndexInsert (elem op 1) (if elem op 3 = Str ''100755'' then st0\<lparr>stats.mode := 493\<rparr> else st0)
           (elem op 2) \<in> set (drop (length (calls s)) (calls (snd (phase4 w a tot ops s))))"
proof -
  let ?p = "\<lambda>op. elem op 0 = Str ''create'' \<or> elem op 0 = Str ''create-index'' \<or> elem op 0 = Str ''update''"
  let ?s1 = "log (IndexAcquire (gitdir a @ ''/index'')) s"
  obtain hs es s' where run:
    "rounds 5 (phase4_step w a tot) (map (\<lambda>x. (x, Pending P4_start)) (filter ?p ops)) ?s1 = (hs, es, s')"
    by (cases "rounds 5 (phase4_step w a tot) (map (\<lambda>x. (x, Pending P4_start)) (filter ?p ops)) ?s1")
  have s': "snd (phase4 w a tot ops s) = s'"
    using phase4_unfold [OF acq, of tot ops] run by simp
  have "\<exists>r. lstats op object st0 (length (calls s)) (Settled r) s'"
  proof (rule phase4_settles [where n = "length (calls s)"
        and P = "lstats op object st0 (length (calls s))" and ?s1.0 = ?s1 and xs = "filter ?p ops"
        and hs = hs and es = es and s' = s'])
    show "\<And>at s'. length (calls s) \<le> length (calls s') \<Longrightarrow>
        lstats op object st0 (length (calls s)) (Pending at) s' \<Longrightarrow>
        lstats op object st0 (length (calls s)) (fst (phase4_step w a tot op at s'))
          (snd (phase4_step w a tot op at s'))"
      using lstats_step [OF ok ls] by blast
    show "\<And>st s1 s2 cs. lstats op object st0 (length (calls s)) st s1 \<Longrightarrow> calls s2 = calls s1 @ cs \<Longrightarrow>
        lstats op object st0 (length (calls s)) st s2"
      using lstats_mono by blast
    show "lstats op object st0 (length (calls s)) (Pending P4_start) ?s1" by simp
    show "length (calls s) \<le> length (calls ?s1)" by (simp add: log_def)
    show "op \<in> set (filter ?p ops)" using mem m by auto
    show "rounds 5 (phase4_step w a tot) (map (\<lambda>x. (x, Pending P4_start)) (filter ?p ops)) ?s1
        = (hs, es, s')" using run .
  qed
  then show ?thesis using s' by simp
qed

lemma phase4_sound:
  assumes acq: "acquire w (calls s) (gitdir a @ ''/index'') = None"
  shows "fst (phase4 w a tot ops s) = None \<and>
     (\<exists>cs. calls (snd (phase4 w a tot ops s)) = calls s @ IndexAcquire (gitdir a @ ''/index'') # cs \<and>
           (\<forall>c \<in> set cs. \<exists>op \<in> set ops.
               (elem op 0 = Str ''create'' \<or> elem op 0 = Str ''create-index'' \<or> elem op 0 = Str ''update'') \<and>
               handler_call a op c))"
proof -
  let ?p = "\<lambda>op. elem op 0 = Str ''create'' \<or> elem op 0 = Str ''create-index'' \<or> elem op 0 = Str ''update''"
  let ?s1 = "log (IndexAcquire (gitdir a @ ''/index'')) s"
  let ?hs = "map (\<lambda>x. (x, Pending P4_start)) (filter ?p ops)"
  let ?I = "\<lambda>s' :: state. \<exists>cs. calls s' = calls s @ IndexAcquire (gitdir a @ ''/index'') # cs \<and>
           (\<forall>c \<in> set cs. \<exists>op \<in> set (filter ?p ops). handler_call a op c)"
  obtain hs es s' where run: "rounds 5 (phase4_step w a tot) ?hs ?s1 = (hs, es, s')"
    by (cases "rounds 5 (phase4_step w a tot) ?hs ?s1")
  have k: "fst ` set ?hs \<subseteq> set (filter ?p ops)" by (simp add: image_image)
  have "es = []"
    by (rule rounds_rejections [where K = "set (filter ?p ops)" and step = "phase4_step w a tot"
          and hs = ?hs and n = 5 and s = ?s1 and hs' = hs and s' = s'])
       (use phase4_step_fulfils k run in blast)+
  then have r: "fst (phase4 w a tot ops s) = None" and s': "snd (phase4 w a tot ops s) = s'"
    using phase4_unfold [OF acq, of tot ops] run by simp_all
  have "?I s'"
  proof (rule rounds_state [where K = "set (filter ?p ops)" and I = ?I
        and step = "phase4_step w a tot" and hs = ?hs and s = ?s1 and n = 5 and hs' = hs
        and es = es and s' = s'])
    fix x at s2
    assume x: "x \<in> set (filter ?p ops)" and i: "?I s2"
    then obtain cs where cs: "calls s2 = calls s @ IndexAcquire (gitdir a @ ''/index'') # cs"
      and ok: "\<forall>c \<in> set cs. \<exists>op \<in> set (filter ?p ops). handler_call a op c" by blast
    obtain ds where ds: "calls (snd (phase4_step w a tot x at s2)) = calls s2 @ ds"
      and hd: "list_all (handler_call a x) ds"
      using phase4_step_sound by blast
    have "calls (snd (phase4_step w a tot x at s2))
        = calls s @ IndexAcquire (gitdir a @ ''/index'') # (cs @ ds)"
      using cs ds by simp
    moreover have "\<forall>c \<in> set (cs @ ds). \<exists>op \<in> set (filter ?p ops). handler_call a op c"
      using ok hd x by (auto simp add: list_all_iff)
    ultimately show "?I (snd (phase4_step w a tot x at s2))" by blast
  next
    show "fst ` set ?hs \<subseteq> set (filter ?p ops)" using k .
    show "?I ?s1" by (simp add: log_def)
    show "rounds 5 (phase4_step w a tot) ?hs ?s1 = (hs, es, s')" using run .
  qed
  then obtain cs where cs: "calls s' = calls s @ IndexAcquire (gitdir a @ ''/index'') # cs"
    and ok: "\<forall>c \<in> set cs. \<exists>op \<in> set (filter ?p ops). handler_call a op c" by blast
  from ok have "\<forall>c \<in> set cs. \<exists>op \<in> set ops. ?p op \<and> handler_call a op c"
    by fastforce
  with cs r s' show ?thesis by blast
qed


text \<open>
  Claim C9. Phase 4, once the index is acquired, for every plan, every world and every
  state it starts in; the calls meant are those that the phase adds to the calls made
  before it.

  Every create or update op of the plan whose blob is read, and whose file is removed
  first without failure when \<^verbatim>\<open>chmod\<close> is set, is written by its declared mode: a plain
  \<^verbatim>\<open>fs.write\<close> for \<^verbatim>\<open>100644\<close>, an \<^verbatim>\<open>fs.write\<close> with mode \<^verbatim>\<open>0o777\<close> (511) for \<^verbatim>\<open>100755\<close>, an
  \<^verbatim>\<open>fs.writelink\<close> for \<^verbatim>\<open>120000\<close>; for any other mode the Internal error is raised, which
  the handler catches and logs. Every create, update or create-index op of the plan whose
  awaited calls succeed, \<^verbatim>\<open>lstat\<close> reporting the stats \<open>st\<close>, is inserted into the index, with
  the stats \<open>st\<close>, their mode overwritten to \<^verbatim>\<open>0o755\<close> (493) when the declared mode is
  \<^verbatim>\<open>100755\<close>.

  Conversely, every \<^verbatim>\<open>fs.write\<close> of the phase is the write of an op of the plan that the
  phase handles, plain for the declared mode \<^verbatim>\<open>100644\<close> and with mode \<^verbatim>\<open>0o777\<close> for
  \<^verbatim>\<open>100755\<close>; every \<^verbatim>\<open>fs.writelink\<close> is that of an op of declared mode \<^verbatim>\<open>120000\<close>; and every
  \<^verbatim>\<open>index.insert\<close> is that of an op of the plan, with stats of mode \<^verbatim>\<open>0o755\<close> when the op
  declares \<^verbatim>\<open>100755\<close>, whatever \<^verbatim>\<open>lstat\<close> reported.
\<close>


theorem C9_phase4_mode:
  assumes "acquire w (calls s) (gitdir a @ ''/index'') = None"
  shows "let new = drop (length (calls s)) (calls (snd (phase4 w a tot ops s))) in
     (\<forall>op \<in> set ops. elem op 0 = Str ''create'' \<or> elem op 0 = Str ''update'' \<longrightarrow>
        (\<forall>object.
           (\<forall>hist. readObject w hist (gitdir a) (elem op 2) = Inr object) \<and>
           (truthy (elem op 4) \<longrightarrow> (\<forall>hist. fs_rm w hist (filepath_of a (elem op 1)) = None)) \<longrightarrow>
           (elem op 3 = Str ''100644'' \<longrightarrow>
              FsWrite (filepath_of a (elem op 1)) object None \<in> set new) \<and>
           (elem op 3 = Str ''100755'' \<longrightarrow>
              FsWrite (filepath_of a (elem op 1)) object (Some 511) \<in> set new) \<and>
           (elem op 3 = Str ''120000'' \<longrightarrow>
              FsWritelink (filepath_of a (elem op 1)) object \<in> set new) \<and>
           (elem op 3 \<noteq> Str ''100644'' \<and> elem op 3 \<noteq> Str ''100755'' \<and> elem op 3 \<noteq> Str ''120000'' \<longrightarrow>
              ConsoleLog (LogError (InternalFail (Message
                (''Invalid mode '' @ [CHR 0x22] @ template (elem op 3) @ [CHR 0x22] @
                 '' detected in blob '' @ template (elem op 2))))) \<in> set new)))
   \<and> (\<forall>op \<in> set ops.
        elem op 0 = Str ''create'' \<or> elem op 0 = Str ''create-index'' \<or> elem op 0 = Str ''update'' \<longrightarrow>
        (\<forall>object st.
           (elem op 0 \<noteq> Str ''create-index'' \<longrightarrow>
              (\<forall>hist. readObject w hist (gitdir a) (elem op 2) = Inr object) \<and>
              (truthy (elem op 4) \<longrightarrow> (\<forall>hist. fs_rm w hist (filepath_of a (elem op 1)) = None)) \<and>
              (elem op 3 = Str ''100644'' \<and>
                 (\<forall>hist. fs_write w hist (filepath_of a (elem op 1)) object None = None) \<or>
               elem op 3 = Str ''100755'' \<and>
                 (\<forall>hist. fs_write w hist (filepath_of a (elem op 1)) object (Some 511) = None) \<or>
               elem op 3 = Str ''120000'' \<and>
                 (\<forall>hist. fs_writelink w hist (filepath_of a (elem op 1)) object = None))) \<and>
           (\<forall>hist. fs_lstat w hist (filepath_of a (elem op 1)) = Inr st) \<longrightarrow>
           IndexInsert (elem op 1) (if elem op 3 = Str ''100755'' then st\<lparr>stats.mode := 493\<rparr> else st)
             (elem op 2) \<in> set new))
   \<and> (\<forall>p object m. FsWrite p object m \<in> set new \<longrightarrow>
        (\<exists>op \<in> set ops.
           (elem op 0 = Str ''create'' \<or> elem op 0 = Str ''create-index'' \<or> elem op 0 = Str ''update'') \<and>
           p = filepath_of a (elem op 1) \<and>
           (m = None \<and> elem op 3 = Str ''100644'' \<or> m = Some 511 \<and> elem op 3 = Str ''100755'')))
   \<and> (\<forall>p object. FsWritelink p object \<in> set new \<longrightarrow>
        (\<exists>op \<in> set ops.
           (elem op 0 = Str ''create'' \<or> elem op 0 = Str ''create-index'' \<or> elem op 0 = Str ''update'') \<and>
           p = filepath_of a (elem op 1) \<and> elem op 3 = Str ''120000''))
   \<and> (\<forall>p st o'. IndexInsert p st o' \<in> set new \<longrightarrow>
        (\<exists>op \<in> set ops.
           (elem op 0 = Str ''create'' \<or> elem op 0 = Str ''create-index'' \<or> elem op 0 = Str ''update'') \<and>
           p = elem op 1 \<and> o' = elem op 2 \<and>
           (elem op 3 = Str ''100755'' \<longrightarrow> stats.mode st = 493)))"
proof -
  define new where "new = drop (length (calls s)) (calls (snd (phase4 w a tot ops s)))"
  let ?p = "\<lambda>op. elem op 0 = Str ''create'' \<or> elem op 0 = Str ''create-index'' \<or> elem op 0 = Str ''update''"
  obtain cs where cs: "calls (snd (phase4 w a tot ops s)) = calls s @ IndexAcquire (gitdir a @ ''/index'') # cs"
    and ok: "\<forall>c \<in> set cs. \<exists>op \<in> set ops. ?p op \<and> handler_call a op c"
    using phase4_sound [OF assms, of tot ops] by blast
  have new: "new = IndexAcquire (gitdir a @ ''/index'') # cs"
    using cs by (simp add: new_def)
  have w: "written a op object new"
    if "op \<in> set ops" "elem op 0 = Str ''create'' \<or> elem op 0 = Str ''update''"
      "\<forall>hist. readObject w hist (gitdir a) (elem op 2) = Inr object"
      "truthy (elem op 4) \<longrightarrow> (\<forall>hist. fs_rm w hist (filepath_of a (elem op 1)) = None)"
    for op object
    unfolding new_def using phase4_written [OF assms that] .
  have c1: "\<forall>op \<in> set ops. elem op 0 = Str ''create'' \<or> elem op 0 = Str ''update'' \<longrightarrow>
        (\<forall>object.
           (\<forall>hist. readObject w hist (gitdir a) (elem op 2) = Inr object) \<and>
           (truthy (elem op 4) \<longrightarrow> (\<forall>hist. fs_rm w hist (filepath_of a (elem op 1)) = None)) \<longrightarrow>
           (elem op 3 = Str ''100644'' \<longrightarrow>
              FsWrite (filepath_of a (elem op 1)) object None \<in> set new) \<and>
           (elem op 3 = Str ''100755'' \<longrightarrow>
              FsWrite (filepath_of a (elem op 1)) object (Some 511) \<in> set new) \<and>
           (elem op 3 = Str ''120000'' \<longrightarrow>
              FsWritelink (filepath_of a (elem op 1)) object \<in> set new) \<and>
           (elem op 3 \<noteq> Str ''100644'' \<and> elem op 3 \<noteq> Str ''100755'' \<and> elem op 3 \<noteq> Str ''120000'' \<longrightarrow>
              ConsoleLog (LogError (InternalFail (Message
                (''Invalid mode '' @ [CHR 0x22] @ template (elem op 3) @ [CHR 0x22] @
                 '' detected in blob '' @ template (elem op 2))))) \<in> set new))"
    using w unfolding written_def by blast
  have c2: "\<forall>op \<in> set ops. ?p op \<longrightarrow>
        (\<forall>object st.
           (elem op 0 \<noteq> Str ''create-index'' \<longrightarrow>
              (\<forall>hist. readObject w hist (gitdir a) (elem op 2) = Inr object) \<and>
              (truthy (elem op 4) \<longrightarrow> (\<forall>hist. fs_rm w hist (filepath_of a (elem op 1)) = None)) \<and>
              (elem op 3 = Str ''100644'' \<and>
                 (\<forall>hist. fs_write w hist (filepath_of a (elem op 1)) object None = None) \<or>
               elem op 3 = Str ''100755'' \<and>
                 (\<forall>hist. fs_write w hist (filepath_of a (elem op 1)) object (Some 511) = None) \<or>
               elem op 3 = Str ''120000'' \<and>
                 (\<forall>hist. fs_writelink w hist (filepath_of a (elem op 1)) object = None))) \<and>
           (\<forall>hist. fs_lstat w hist (filepath_of a (elem op 1)) = Inr st) \<longrightarrow>
           IndexInsert (elem op 1) (if elem op 3 = Str ''100755'' then st\<lparr>stats.mode := 493\<rparr> else st)
             (elem op 2) \<in> set new)"
  proof (intro ballI impI allI)
    fix op object st
    assume "op \<in> set ops" "?p op"
      and h: "(elem op 0 \<noteq> Str ''create-index'' \<longrightarrow>
              (\<forall>hist. readObject w hist (gitdir a) (elem op 2) = Inr object) \<and>
              (truthy (elem op 4) \<longrightarrow> (\<forall>hist. fs_rm w hist (filepath_of a (elem op 1)) = None)) \<and>
              (elem op 3 = Str ''100644'' \<and>
                 (\<forall>hist. fs_write w hist (filepath_of a (elem op 1)) object None = None) \<or>
               elem op 3 = Str ''100755'' \<and>
                 (\<forall>hist. fs_write w hist (filepath_of a (elem op 1)) object (Some 511) = None) \<or>
               elem op 3 = Str ''120000'' \<and>
                 (\<forall>hist. fs_writelink w hist (filepath_of a (elem op 1)) object = None))) \<and>
           (\<forall>hist. fs_lstat w hist (filepath_of a (elem op 1)) = Inr st)"
    then show "IndexInsert (elem op 1) (if elem op 3 = Str ''100755'' then st\<lparr>stats.mode := 493\<rparr> else st)
             (elem op 2) \<in> set new"
      unfolding new_def
      using phase4_inserted [OF assms \<open>op \<in> set ops\<close> \<open>?p op\<close> h [THEN conjunct1] h [THEN conjunct2]]
      by simp
  qed
  have c3: "\<forall>p object m. FsWrite p object m \<in> set new \<longrightarrow>
        (\<exists>op \<in> set ops. ?p op \<and> p = filepath_of a (elem op 1) \<and>
           (m = None \<and> elem op 3 = Str ''100644'' \<or> m = Some 511 \<and> elem op 3 = Str ''100755''))"
  proof (intro allI impI)
    fix p object m
    assume "FsWrite p object m \<in> set new"
    then have "FsWrite p object m \<in> set cs" using new by simp
    with ok obtain op where "op \<in> set ops" "?p op" "handler_call a op (FsWrite p object m)" by blast
    then show "\<exists>op \<in> set ops. ?p op \<and> p = filepath_of a (elem op 1) \<and>
           (m = None \<and> elem op 3 = Str ''100644'' \<or> m = Some 511 \<and> elem op 3 = Str ''100755'')"
      by (intro bexI [of _ op]) simp_all
  qed
  have c4: "\<forall>p object. FsWritelink p object \<in> set new \<longrightarrow>
        (\<exists>op \<in> set ops. ?p op \<and> p = filepath_of a (elem op 1) \<and> elem op 3 = Str ''120000'')"
  proof (intro allI impI)
    fix p object
    assume "FsWritelink p object \<in> set new"
    then have "FsWritelink p object \<in> set cs" using new by simp
    with ok obtain op where "op \<in> set ops" "?p op" "handler_call a op (FsWritelink p object)" by blast
    then show "\<exists>op \<in> set ops. ?p op \<and> p = filepath_of a (elem op 1) \<and> elem op 3 = Str ''120000''"
      by (intro bexI [of _ op]) simp_all
  qed
  have c5: "\<forall>p st o'. IndexInsert p st o' \<in> set new \<longrightarrow>
        (\<exists>op \<in> set ops. ?p op \<and> p = elem op 1 \<and> o' = elem op 2 \<and>
           (elem op 3 = Str ''100755'' \<longrightarrow> stats.mode st = 493))"
  proof (intro allI impI)
    fix p st o'
    assume "IndexInsert p st o' \<in> set new"
    then have "IndexInsert p st o' \<in> set cs" using new by simp
    with ok obtain op where "op \<in> set ops" "?p op" "handler_call a op (IndexInsert p st o')" by blast
    then show "\<exists>op \<in> set ops. ?p op \<and> p = elem op 1 \<and> o' = elem op 2 \<and>
           (elem op 3 = Str ''100755'' \<longrightarrow> stats.mode st = 493)"
      by (intro bexI [of _ op]) simp_all
  qed
  show ?thesis
    unfolding Let_def new_def [symmetric] using c1 c2 c3 c4 c5 by (intro conjI)
qed


text \<open>A plan with a plain file, an executable file whose mode changes, a symbolic link, a
  blob with the mode of a gitlink, a directory and an executable file that is only entered
  into the index. \<^verbatim>\<open>lstat\<close> reports the mode \<^verbatim>\<open>0o100644\<close> (33188) for every path, and the
  stats inserted for the two executable files have mode \<^verbatim>\<open>0o755\<close>.\<close>

theorem C9_phase4_mode_witness:
  "acquire (example_world [] [] [] (root_of [])) (calls s0)
       (gitdir (example_args ''master'' False False) @ ''/index'') = None
   \<and> fs_lstat (example_world [] [] [] (root_of [])) [] ''/repo/run.sh''
       = Inr \<lparr>stats.mode = 33188, size = 5, mtimeMs = 0\<rparr>
   \<and> (let new = calls (snd (phase4 (example_world [] [] [] (root_of []))
                  (example_args ''master'' False False) 6
                  [[Str ''create'', Str ''a'', Str ''h1'', Str ''100644''],
                   [Str ''update'', Str ''run.sh'', Str ''c1'', Str ''100755'', Bool True],
                   [Str ''create'', Str ''ln'', Str ''l1'', Str ''120000''],
                   [Str ''create'', Str ''odd'', Str ''m1'', Str ''160000''],
                   [Str ''mkdir'', Str ''d''],
                   [Str ''create-index'', Str ''k'', Str ''k1'', Str ''100755'']] s0))
       in FsWrite ''/repo/a'' ''hello'' None \<in> set new
        \<and> FsWrite ''/repo/run.sh'' ''hello'' (Some 511) \<in> set new
        \<and> FsWritelink ''/repo/ln'' ''hello'' \<in> set new
        \<and> ConsoleLog (LogError (InternalFail (Message
             (''Invalid mode '' @ [CHR 0x22] @ ''160000'' @ [CHR 0x22] @ '' detected in blob m1''))))
             \<in> set new
        \<and> IndexInsert (Str ''a'') \<lparr>stats.mode = 33188, size = 5, mtimeMs = 0\<rparr> (Str ''h1'') \<in> set new
        \<and> IndexInsert (Str ''run.sh'') \<lparr>stats.mode = 493, size = 5, mtimeMs = 0\<rparr> (Str ''c1'') \<in> set new
        \<and> IndexInsert (Str ''k'') \<lparr>stats.mode = 493, size = 5, mtimeMs = 0\<rparr> (Str ''k1'') \<in> set new
        \<and> (\<forall>st o'. IndexInsert (Str ''run.sh'') st o' \<in> set new \<longrightarrow> stats.mode st = 493)
        \<and> (\<forall>object m. FsWrite ''/repo/run.sh'' object m \<in> set new \<longrightarrow> m = Some 511)
        \<and> (\<forall>object m. FsWrite ''/repo/odd'' object m \<notin> set new))"
proof -
  let ?w = "example_world [] [] [] (root_of [])"
  let ?a = "example_args ''master'' False False"
  let ?A = "[Str ''create'', Str ''a'', Str ''h1'', Str ''100644'']"
  let ?R = "[Str ''update'', Str ''run.sh'', Str ''c1'', Str ''100755'', Bool True]"
  let ?L = "[Str ''create'', Str ''ln'', Str ''l1'', Str ''120000'']"
  let ?O = "[Str ''create'', Str ''odd'', Str ''m1'', Str ''160000'']"
  let ?D = "[Str ''mkdir'', Str ''d'']"
  let ?K = "[Str ''create-index'', Str ''k'', Str ''k1'', Str ''100755'']"
  let ?ops = "[?A, ?R, ?L, ?O, ?D, ?K]"
  let ?new = "calls (snd (phase4 ?w ?a 6 ?ops s0))"
  let ?st = "\<lparr>stats.mode = 33188, size = 5, mtimeMs = 0\<rparr>"
  have acq: "acquire ?w (calls s0) (gitdir ?a @ ''/index'') = None"
    by (simp add: example_world_def)
  have ls: "fs_lstat ?w [] ''/repo/run.sh'' = Inr ?st"
    by (simp add: example_world_def)
  note th = C9_phase4_mode [OF acq, of 6 ?ops, unfolded Let_def]
  have n: "drop (length (calls s0)) cs = cs" for cs :: "call list"
    by (simp add: s0_def)
  note wr = th [THEN conjunct1, rule_format, unfolded n]
  note ins = th [THEN conjunct2, THEN conjunct1, rule_format, unfolded n]
  note sw = th [THEN conjunct2, THEN conjunct2, THEN conjunct1, rule_format, unfolded n]
  note si = th [THEN conjunct2, THEN conjunct2, THEN conjunct2, THEN conjunct2, rule_format, unfolded n]
  have r1: "FsWrite ''/repo/a'' ''hello'' None \<in> set ?new"
    using wr [of ?A "''hello''"]
    by (simp add: elem_def example_world_def example_args_def filepath_of_def)
  have r2: "FsWrite ''/repo/run.sh'' ''hello'' (Some 511) \<in> set ?new"
    using wr [of ?R "''hello''"]
    by (simp add: elem_def example_world_def example_args_def filepath_of_def)
  have r3: "FsWritelink ''/repo/ln'' ''hello'' \<in> set ?new"
    using wr [of ?L "''hello''"]
    by (simp add: elem_def example_world_def example_args_def filepath_of_def)
  have r4: "ConsoleLog (LogError (InternalFail (Message
             (''Invalid mode '' @ [CHR 0x22] @ ''160000'' @ [CHR 0x22] @ '' detected in blob m1''))))
             \<in> set ?new"
    using wr [of ?O "''hello''"]
    by (simp add: elem_def example_world_def example_args_def filepath_of_def)
  have i1: "IndexInsert (Str ''a'') ?st (Str ''h1'') \<in> set ?new"
    using ins [of ?A "''hello''" ?st]
    by (simp add: elem_def example_world_def example_args_def filepath_of_def)
  have i2: "IndexInsert (Str ''run.sh'') \<lparr>stats.mode = 493, size = 5, mtimeMs = 0\<rparr> (Str ''c1'') \<in> set ?new"
    using ins [of ?R "''hello''" ?st]
    by (simp add: elem_def example_world_def example_args_def filepath_of_def)
  have i3: "IndexInsert (Str ''k'') \<lparr>stats.mode = 493, size = 5, mtimeMs = 0\<rparr> (Str ''k1'') \<in> set ?new"
    using ins [of ?K "''hello''" ?st]
    by (simp add: elem_def example_world_def example_args_def filepath_of_def)
  have s1: "\<forall>st o'. IndexInsert (Str ''run.sh'') st o' \<in> set ?new \<longrightarrow> stats.mode st = 493"
  proof (intro allI impI)
    fix st o'
    assume "IndexInsert (Str ''run.sh'') st o' \<in> set ?new"
    from si [OF this] show "stats.mode st = 493"
      by (auto simp add: elem_def)
  qed
  have s2: "\<forall>object m. FsWrite ''/repo/run.sh'' object m \<in> set ?new \<longrightarrow> m = Some 511"
  proof (intro allI impI)
    fix object m
    assume "FsWrite ''/repo/run.sh'' object m \<in> set ?new"
    from sw [OF this] show "m = Some 511"
      by (auto simp add: elem_def example_args_def filepath_of_def)
  qed
  have s3: "\<forall>object m. FsWrite ''/repo/odd'' object m \<notin> set ?new"
  proof (intro allI notI)
    fix object m
    assume "FsWrite ''/repo/odd'' object m \<in> set ?new"
    from sw [OF this] show False
      by (auto simp add: elem_def example_args_def filepath_of_def)
  qed
  show ?thesis
    unfolding Let_def using acq ls r1 r2 r3 r4 i1 i2 i3 s1 s2 s3 by (intro conjI)
qed

section \<open>The operation as a whole\<close>

text \<open>While the plan is built, the only calls recorded are the populate calls of the
  walkers, progress events and console output.\<close>

lemma emit_progress_walk_calls:
  "\<exists>rs. calls (emit_progress a ph t s) = calls s @ rs \<and> list_all is_walk_call rs"
  by (simp add: emit_progress_def)

lemma case_010_walk_calls:
  "\<exists>rs. calls (snd (case_010 commit s)) = calls s @ rs \<and> list_all is_walk_call rs"
  by (simp add: case_010_def then_do_def populateStat_def populateHash_def submodule_log_def log_def
      split: option.splits)

lemma case_011_walk_calls:
  "\<exists>rs. calls (snd (case_011 h commit workdir s)) = calls s @ rs \<and> list_all is_walk_call rs"
  by (simp add: case_011_def then_do_def populateStat_def populateHash_def submodule_log_def log_def
      Let_def split: option.splits)

lemma case_101_walk_calls:
  "\<exists>rs. calls (snd (case_101 workdir stage s)) = calls s @ rs \<and> list_all is_walk_call rs"
  by (simp add: case_101_def then_do_def populateStat_def populateHash_def log_def
      split: option.splits)

lemma case_110_111_walk_calls:
  "\<exists>rs. calls (snd (case_110_111 h tr s)) = calls s @ rs \<and> list_all is_walk_call rs"
  by (cases tr)
     (simp add: case_110_111_def then_do_def populateStat_def populateHash_def log_def Let_def
        split: option.splits)

lemma planner_walk_calls:
  "\<exists>rs. calls (snd (planner h tr s)) = calls s @ rs \<and> list_all is_walk_call rs"
proof -
  obtain commit workdir stage where tr: "tr = (commit, workdir, stage)" by (cases tr)
  show ?thesis
    unfolding tr planner_def Let_def prod.case
    using case_010_walk_calls [of commit s] case_011_walk_calls [of h commit workdir s]
      case_101_walk_calls [of workdir stage s] case_110_111_walk_calls [of h "(commit, workdir, stage)" s]
    by simp
qed

lemma map_fn_walk_calls:
  "\<exists>rs. calls (snd (map_fn h a tr s)) = calls s @ rs \<and> list_all is_walk_call rs"
proof -
  obtain r1 where r1: "calls (emit_progress a ''Analyzing workdir'' None s) = calls s @ r1"
      "list_all is_walk_call r1"
    using emit_progress_walk_calls by blast
  obtain r2 where r2: "calls (snd (planner h tr (emit_progress a ''Analyzing workdir'' None s)))
        = calls (emit_progress a ''Analyzing workdir'' None s) @ r2" "list_all is_walk_call r2"
    using planner_walk_calls by blast
  have "calls (snd (planner h tr (emit_progress a ''Analyzing workdir'' None s))) = calls s @ (r1 @ r2)"
       "list_all is_walk_call (r1 @ r2)"
    using r1 r2 by simp_all
  then have "\<exists>rs. calls (snd (planner h tr (emit_progress a ''Analyzing workdir'' None s))) = calls s @ rs
       \<and> list_all is_walk_call rs"
    by blast
  then show ?thesis
    by (cases tr) (simp add: map_fn_def)
qed

lemma walk_walk_calls:
  fixes flt :: "triple \<Rightarrow> bool" and mp :: "triple \<Rightarrow> state \<Rightarrow> (gerror + op option) \<times> state"
  assumes mp: "\<forall>tr s. \<exists>rs. calls (snd (mp tr s)) = calls s @ rs \<and> list_all is_walk_call rs"
  shows "\<exists>rs. calls (snd (walk flt mp red t s)) = calls s @ rs \<and> list_all is_walk_call rs"
    and "\<exists>rs. calls (snd (walk_children flt mp red ts s)) = calls s @ rs \<and> list_all is_walk_call rs"
  using mp
proof (induction flt mp red t s and flt mp red ts s rule: walk_walk_children.induct)
  case (1 flt mp red entry children s)
  show ?case
  proof (cases "flt entry")
    case False
    then show ?thesis by simp
  next
    case True
    obtain res s1 where m: "mp entry s = (res, s1)" by (cases "mp entry s")
    from "1.prems" m obtain r1 where r1: "calls s1 = calls s @ r1" "list_all is_walk_call r1"
      by (metis snd_conv)
    show ?thesis
    proof (cases res)
      case (Inl e)
      then show ?thesis using True m r1 by simp
    next
      case (Inr parent)
      obtain walked s2 where c: "walk_children flt mp red children s1 = (walked, s2)"
        by (cases "walk_children flt mp red children s1")
      from "1.IH" [OF True m [symmetric] Inr] "1.prems" c
      obtain r2 where r2: "calls s2 = calls s1 @ r2" "list_all is_walk_call r2"
        by auto
      have "calls s2 = calls s @ (r1 @ r2)" "list_all is_walk_call (r1 @ r2)"
        using r1 r2 by simp_all
      then show ?thesis
        using True m Inr c by (cases walked) (simp_all del: list_all_append)
    qed
  qed
next
  case (2 flt mp red s)
  then show ?case by simp
next
  case (3 flt mp red c cs s)
  obtain res s1 where w: "walk flt mp red c s = (res, s1)" by (cases "walk flt mp red c s")
  from "3.IH"(1) "3.prems" w obtain r1 where r1: "calls s1 = calls s @ r1" "list_all is_walk_call r1"
    by auto
  show ?case
  proof (cases res)
    case (Inl e)
    then show ?thesis using w r1 by simp
  next
    case (Inr r)
    obtain rs s2 where c: "walk_children flt mp red cs s1 = (rs, s2)"
      by (cases "walk_children flt mp red cs s1")
    from "3.IH"(2) [OF w [symmetric] Inr] "3.prems" c
    obtain r2 where r2: "calls s2 = calls s1 @ r2" "list_all is_walk_call r2"
      by auto
    have "calls s2 = calls s @ (r1 @ r2)" "list_all is_walk_call (r1 @ r2)"
      using r1 r2 by simp_all
    then show ?thesis
      using w Inr c by (cases rs) (simp_all del: list_all_append)
  qed
qed

lemma plan_walk_calls:
  "\<exists>rs. calls (snd (plan w h a r o' s)) = calls s @ rs \<and> list_all is_walk_call rs"
proof (cases "trees w (calls s)")
  case (Inl e)
  then show ?thesis by (simp add: plan_def)
next
  case (Inr t)
  obtain res s1 where wk: "walk (filter_fn h a) (map_fn h a) reduce t s = (res, s1)"
    by (cases "walk (filter_fn h a) (map_fn h a) reduce t s")
  have "\<forall>tr s. \<exists>rs. calls (snd (map_fn h a tr s)) = calls s @ rs \<and> list_all is_walk_call rs"
    using map_fn_walk_calls by blast
  from walk_walk_calls(1) [OF this, of "filter_fn h a" reduce t s] wk
  have "\<exists>rs. calls s1 = calls s @ rs \<and> list_all is_walk_call rs"
    by simp
  then show ?thesis
    using Inr wk by (simp add: plan_def split: sum.splits option.splits)
qed

text \<open>A populate call that raises ends the walk and the operation: the calls of the round
  are all made, nothing follows them, and the error is raised with the caller tag.\<close>

lemma populate_failure_ends_operation:
  "fastCheckout (example_world [(''master'', ''c2''), (''HEAD'', ''c1'')]
          [(''master'', ''refs/heads/master'')] [] unreadable_tree)
        example_helpers (example_args ''master'' False False)
       = (Inl (Thrown (FsError ''EACCES'') ''git.checkout''),
          \<lparr>calls = [Emit ''progress'' ''Analyzing workdir'' 1 None,
                    PopulateStat TREE ''a'', PopulateStat STAGE ''a'', PopulateStat WORKDIR ''a'',
                    PopulateHash STAGE ''a'', PopulateHash TREE ''a'', PopulateHash WORKDIR ''a''],
           count = 1\<rparr>)"
  by (simp add: unreadable_tree_def example_defs planner_defs operation_defs)

lemma resolve_oid_calls:
  assumes "resolve_oid w a r s = (Inr o', s1)"
  shows "case resolve w (calls s) (gitdir a) r of
           Inr x \<Rightarrow> x = o' \<and> s1 = s
         | Inl e \<Rightarrow> calls s1 = calls s @
             [ConfigSet (gitdir a) (''branch.'' @ r @ ''.remote'') (remote a),
              ConfigSet (gitdir a) (''branch.'' @ r @ ''.merge'') (''refs/heads/'' @ r),
              FsWrite (gitdir a @ ''/refs/heads/'' @ r) (o' @ [CHR 0x0A]) None]"
  using assms
  by (auto simp add: resolve_oid_def effect_def log_def Let_def
      split: sum.splits option.splits prod.splits)

lemma body_continue:
  assumes "ref a = Some r" and "resolve_oid w a r s = (Inr o', s1)"
    and "resolve w (calls s1) (gitdir a) ''HEAD'' = Inr HEAD"
  shows "fastCheckout_body w h a s =
     (case (if \<not> noCheckout a \<and> HEAD \<noteq> o' then update_working_dir w h a r o' s1 else (Done, s1)) of
        (Done, s2) \<Rightarrow>
          (case update_HEAD w a r o' s2 of
             (Some e, s3) \<Rightarrow> (Throw e, s3)
           | (None, s3) \<Rightarrow> (Done, s3))
      | (Throw e, s2) \<Rightarrow> (Throw e, s2)
      | (Return ops, s2) \<Rightarrow> (Return ops, s2))"
  using assms by (simp add: fastCheckout_body_def)

lemma fastCheckout_unfold:
  "fastCheckout w h a =
     (case fastCheckout_body w h a s0 of
        (Throw e, s) \<Rightarrow> (Inl (Thrown e ''git.checkout''), s)
      | (Return ops, s) \<Rightarrow> (Inr (Some ops), s)
      | (Done, s) \<Rightarrow> (Inr None, s))"
  by (simp add: fastCheckout_def s0_def)

lemma resolve_oid_local:
  "resolve w (calls s) (gitdir a) r = Inr o' \<Longrightarrow> resolve_oid w a r s = (Inr o', s)"
  by (simp add: resolve_oid_def)

lemma startsWith_append:
  assumes "startsWith x (p @ q)"
  shows "startsWith x p"
proof -
  have a: "take (length p) (take (length (p @ q)) x) = take (length p) x"
    by (simp add: min_def)
  have b: "take (length (p @ q)) x = p @ q"
    using assms by (simp add: startsWith_def)
  have "take (length p) x = take (length p) (p @ q)"
    using a unfolding b by simp
  then show ?thesis
    by (simp add: startsWith_def)
qed

lemma update_working_dir_Done:
  "update_working_dir w h a r o' s1 = (Done, s2) \<longleftrightarrow>
     (\<exists>ops s'. plan w h a r o' s1 = (Inr ops, s')
        \<and> \<not> (\<exists>op \<in> set ops. elem op 0 = Str ''conflict'')
        \<and> \<not> (\<exists>op \<in> set ops. elem op 0 = Str ''error'')
        \<and> \<not> dryRun a \<and> applier w a ops s' = (None, s2))"
proof -
  have cf: "(\<exists>op \<in> set ops. elem op 0 = Str ''conflict'') \<longleftrightarrow> conflicts ops \<noteq> []" for ops
    by (simp add: conflicts_def filter_empty_conv)
  have er: "(\<exists>op \<in> set ops. elem op 0 = Str ''error'') \<longleftrightarrow> errors ops \<noteq> []" for ops
    by (simp add: errors_def filter_empty_conv)
  obtain res s' where p: "plan w h a r o' s1 = (res, s')"
    by (cases "plan w h a r o' s1")
  show ?thesis
  proof (cases res)
    case (Inl e)
    then show ?thesis using p by (simp add: update_working_dir_def)
  next
    case (Inr ops)
    obtain ar sa where ap: "applier w a ops s' = (ar, sa)"
      by (cases "applier w a ops s'")
    show ?thesis
      unfolding cf er using p Inr ap
      by (cases ar) (auto simp add: update_working_dir_def)
  qed
qed


text \<open>
  Claim C1, as amended. When the ref has been resolved (locally, or through the remote with
  the tracking branch set up), the workdir is to be updated, and the walk yields a plan:
  if the plan holds a conflict op, the operation fails with the CheckoutConflict error that
  carries the paths of all conflict ops; if it holds an error op and no conflict op, the
  operation fails with the Internal error that carries all the messages. In both cases the
  state at the failure is the state at the end of the walk: nothing is called after the
  walk, no applier phase runs and \<^verbatim>\<open>HEAD\<close> is not written. The calls of the walk are the
  populate calls of the walkers (which read the working tree and the index, and may
  refresh entries of the index), progress events and console output. Before the walk
  nothing is recorded when the ref resolves locally; otherwise the two config entries and
  \<^verbatim>\<open>refs/heads/<ref>\<close> of the tracking branch have been written.
\<close>

theorem C1_aggregator_aborts:
  assumes "ref a = Some r"
    and "resolve_oid w a r s0 = (Inr o', s1)"
    and "resolve w (calls s1) (gitdir a) ''HEAD'' = Inr HEAD"
    and "\<not> noCheckout a" and "HEAD \<noteq> o'"
    and "plan w h a r o' s1 = (Inr ops, s2)"
  shows "((\<exists>op \<in> set ops. elem op 0 = Str ''conflict'') \<longrightarrow>
            fastCheckout w h a
              = (Inl (Thrown (CheckoutConflictError
                        (map (\<lambda>op. elem op 1) (filter (\<lambda>op. elem op 0 = Str ''conflict'') ops)))
                      ''git.checkout''), s2))
       \<and> ((\<exists>op \<in> set ops. elem op 0 = Str ''error'') \<and> \<not> (\<exists>op \<in> set ops. elem op 0 = Str ''conflict'') \<longrightarrow>
            fastCheckout w h a
              = (Inl (Thrown (InternalFail (Messages
                        (map (\<lambda>op. elem op 1) (filter (\<lambda>op. elem op 0 = Str ''error'') ops))))
                      ''git.checkout''), s2))
       \<and> take (length (calls s1)) (calls s2) = calls s1
       \<and> list_all is_walk_call (drop (length (calls s1)) (calls s2))
       \<and> (case resolve w [] (gitdir a) r of
             Inr x \<Rightarrow> calls s1 = []
           | Inl e \<Rightarrow> calls s1 =
               [ConfigSet (gitdir a) (''branch.'' @ r @ ''.remote'') (remote a),
                ConfigSet (gitdir a) (''branch.'' @ r @ ''.merge'') (''refs/heads/'' @ r),
                FsWrite (gitdir a @ ''/refs/heads/'' @ r) (o' @ [CHR 0x0A]) None])"
proof -
  have body: "fastCheckout_body w h a s0 =
     (case update_working_dir w h a r o' s1 of
        (Done, s2) \<Rightarrow>
          (case update_HEAD w a r o' s2 of
             (Some e, s3) \<Rightarrow> (Throw e, s3)
           | (None, s3) \<Rightarrow> (Done, s3))
      | (Throw e, s2) \<Rightarrow> (Throw e, s2)
      | (Return ops, s2) \<Rightarrow> (Return ops, s2))"
    using body_continue [OF assms(1,2,3)] assms(4,5) by simp
  have fc: "fastCheckout w h a =
     (case fastCheckout_body w h a s0 of
        (Throw e, s) \<Rightarrow> (Inl (Thrown e ''git.checkout''), s)
      | (Return ops, s) \<Rightarrow> (Inr (Some ops), s)
      | (Done, s) \<Rightarrow> (Inr None, s))"
    by (simp add: fastCheckout_def s0_def)
  have cf: "(\<exists>op \<in> set ops. elem op 0 = Str ''conflict'') \<longleftrightarrow> conflicts ops \<noteq> []"
    by (simp add: conflicts_def filter_empty_conv)
  have er: "(\<exists>op \<in> set ops. elem op 0 = Str ''error'') \<longleftrightarrow> errors ops \<noteq> []"
    by (simp add: errors_def filter_empty_conv)
  have c1: "(\<exists>op \<in> set ops. elem op 0 = Str ''conflict'') \<longrightarrow>
            fastCheckout w h a
              = (Inl (Thrown (CheckoutConflictError
                        (map (\<lambda>op. elem op 1) (filter (\<lambda>op. elem op 0 = Str ''conflict'') ops)))
                      ''git.checkout''), s2)"
    unfolding cf using assms(6) by (simp add: fc body update_working_dir_def conflicts_def)
  have c2: "(\<exists>op \<in> set ops. elem op 0 = Str ''error'') \<and> \<not> (\<exists>op \<in> set ops. elem op 0 = Str ''conflict'') \<longrightarrow>
            fastCheckout w h a
              = (Inl (Thrown (InternalFail (Messages
                        (map (\<lambda>op. elem op 1) (filter (\<lambda>op. elem op 0 = Str ''error'') ops))))
                      ''git.checkout''), s2)"
    unfolding cf er using assms(6) by (simp add: fc body update_working_dir_def errors_def)
  from plan_walk_calls [of w h a r o' s1] assms(6)
  obtain rs where rs: "calls s2 = calls s1 @ rs" "list_all is_walk_call rs"
    by auto
  have c3: "take (length (calls s1)) (calls s2) = calls s1"
    and c4: "list_all is_walk_call (drop (length (calls s1)) (calls s2))"
    using rs by simp_all
  have c5: "case resolve w [] (gitdir a) r of
             Inr x \<Rightarrow> calls s1 = []
           | Inl e \<Rightarrow> calls s1 =
               [ConfigSet (gitdir a) (''branch.'' @ r @ ''.remote'') (remote a),
                ConfigSet (gitdir a) (''branch.'' @ r @ ''.merge'') (''refs/heads/'' @ r),
                FsWrite (gitdir a @ ''/refs/heads/'' @ r) (o' @ [CHR 0x0A]) None]"
    using resolve_oid_calls [OF assms(2)] by (auto simp add: s0_def split: sum.splits)
  show ?thesis
    using c1 c2 c3 c4 c5 by blast
qed

text \<open>Scenario S3 (a conflict on the edited \<^verbatim>\<open>old.txt\<close>) and a commit with an entry of an
  unhandled type (an error op), both with a ref that resolves locally: the operation fails
  and has recorded the progress event and the populate calls of the walk only.\<close>

theorem C1_aggregator_aborts_witness:
  "ref (example_args ''master'' False False) = Some ''master''
   \<and> resolve_oid (example_world [(''master'', ''c2''), (''HEAD'', ''c1'')] [] [] dirty_tree)
        (example_args ''master'' False False) ''master'' s0 = (Inr ''c2'', s0)
   \<and> resolve (example_world [(''master'', ''c2''), (''HEAD'', ''c1'')] [] [] dirty_tree) (calls s0)
        (gitdir (example_args ''master'' False False)) ''HEAD'' = Inr ''c1''
   \<and> \<not> noCheckout (example_args ''master'' False False)
   \<and> ''c1'' \<noteq> ''c2''
   \<and> plan (example_world [(''master'', ''c2''), (''HEAD'', ''c1'')] [] [] dirty_tree) example_helpers
        (example_args ''master'' False False) ''master'' ''c2'' s0
       = (Inr [[Str ''conflict'', Str ''old.txt'']],
          \<lparr>calls = [Emit ''progress'' ''Analyzing workdir'' 1 None,
                    PopulateStat STAGE ''old.txt'', PopulateHash STAGE ''old.txt'',
                    PopulateHash WORKDIR ''old.txt''], count = 1\<rparr>)
   \<and> fastCheckout (example_world [(''master'', ''c2''), (''HEAD'', ''c1'')] [] [] dirty_tree)
        example_helpers (example_args ''master'' False False)
       = (Inl (Thrown (CheckoutConflictError [Str ''old.txt'']) ''git.checkout''),
          \<lparr>calls = [Emit ''progress'' ''Analyzing workdir'' 1 None,
                    PopulateStat STAGE ''old.txt'', PopulateHash STAGE ''old.txt'',
                    PopulateHash WORKDIR ''old.txt''], count = 1\<rparr>)
   \<and> plan (example_world [(''master'', ''c2''), (''HEAD'', ''c1'')] [] [] special_tree) example_helpers
        (example_args ''master'' False False) ''master'' ''c2'' s0
       = (Inr [[Str ''error'', Str ''new entry Unhandled type special'']],
          \<lparr>calls = [Emit ''progress'' ''Analyzing workdir'' 1 None,
                    PopulateStat TREE ''dev''], count = 1\<rparr>)
   \<and> fastCheckout (example_world [(''master'', ''c2''), (''HEAD'', ''c1'')] [] [] special_tree)
        example_helpers (example_args ''master'' False False)
       = (Inl (Thrown (InternalFail (Messages [Str ''new entry Unhandled type special'']))
                ''git.checkout''),
          \<lparr>calls = [Emit ''progress'' ''Analyzing workdir'' 1 None,
                    PopulateStat TREE ''dev''], count = 1\<rparr>)"
proof -
  let ?a = "example_args ''master'' False False"
  let ?w = "example_world [(''master'', ''c2''), (''HEAD'', ''c1'')] [] [] dirty_tree"
  let ?w' = "example_world [(''master'', ''c2''), (''HEAD'', ''c1'')] [] [] special_tree"
  let ?s2 = "\<lparr>calls = [Emit ''progress'' ''Analyzing workdir'' 1 None,
                    PopulateStat STAGE ''old.txt'', PopulateHash STAGE ''old.txt'',
                    PopulateHash WORKDIR ''old.txt''], count = 1\<rparr>"
  let ?s2' = "\<lparr>calls = [Emit ''progress'' ''Analyzing workdir'' 1 None,
                    PopulateStat TREE ''dev''], count = 1\<rparr>"
  have h1: "ref ?a = Some ''master''" and h4: "\<not> noCheckout ?a" and h5: "''c1'' \<noteq> ''c2''"
    by (simp_all add: example_args_def)
  have h2: "resolve_oid ?w ?a ''master'' s0 = (Inr ''c2'', s0)"
    and h2': "resolve_oid ?w' ?a ''master'' s0 = (Inr ''c2'', s0)"
    by (simp_all add: resolve_oid_def example_world_def lookup_def)
  have h3: "resolve ?w (calls s0) (gitdir ?a) ''HEAD'' = Inr ''c1''"
    and h3': "resolve ?w' (calls s0) (gitdir ?a) ''HEAD'' = Inr ''c1''"
    by (simp_all add: example_world_def lookup_def)
  have h6: "plan ?w example_helpers ?a ''master'' ''c2'' s0 = (Inr [[Str ''conflict'', Str ''old.txt'']], ?s2)"
    by (simp add: dirty_tree_def example_defs planner_defs plan_def)
  have h6': "plan ?w' example_helpers ?a ''master'' ''c2'' s0
       = (Inr [[Str ''error'', Str ''new entry Unhandled type special'']], ?s2')"
    by (simp add: special_tree_def example_defs planner_defs plan_def)
  have r: "fastCheckout ?w example_helpers ?a
       = (Inl (Thrown (CheckoutConflictError [Str ''old.txt'']) ''git.checkout''), ?s2)"
    using C1_aggregator_aborts [OF h1 h2 h3 h4 h5 h6] by (simp add: elem_def)
  have r': "fastCheckout ?w' example_helpers ?a
       = (Inl (Thrown (InternalFail (Messages [Str ''new entry Unhandled type special'']))
                ''git.checkout''), ?s2')"
    using C1_aggregator_aborts [OF h1 h2' h3' h4 h5 h6'] by (simp add: elem_def)
  show ?thesis
    using h1 h2 h3 h4 h5 h6 r h6' r' by blast
qed

text \<open>The claim as stated fails when the ref resolves only through the remote: the plan
  holds a conflict op and the operation fails with the CheckoutConflict error, yet the two
  config entries and the file \<^verbatim>\<open>refs/heads/feature\<close> have been written.\<close>

theorem C1_bootstrap_written_counterexample:
  "fastCheckout (example_world [(''origin/feature'', ''c2''), (''HEAD'', ''c1'')] [] [] dirty_tree)
          example_helpers (example_args ''feature'' False False)
       = (Inl (Thrown (CheckoutConflictError [Str ''old.txt'']) ''git.checkout''),
          \<lparr>calls = [ConfigSet ''/repo/.git'' ''branch.feature.remote'' ''origin'',
                    ConfigSet ''/repo/.git'' ''branch.feature.merge'' ''refs/heads/feature'',
                    FsWrite ''/repo/.git/refs/heads/feature'' (''c2'' @ [CHR 0x0A]) None,
                    Emit ''progress'' ''Analyzing workdir'' 1 None,
                    PopulateStat STAGE ''old.txt'', PopulateHash STAGE ''old.txt'',
                    PopulateHash WORKDIR ''old.txt''],
           count = 1\<rparr>)"
  by (simp add: dirty_tree_def example_defs planner_defs operation_defs)


text \<open>
  Claim C2. With \<^verbatim>\<open>dryRun = true\<close> the claim expects the plan to be returned and nothing to
  be written, and the documentation of the parameter (line 82) says that a dry run
  simulates a checkout. The source tests \<^verbatim>\<open>dryRun\<close> in one place, line 394, inside the block
  guarded by \<^verbatim>\<open>!noCheckout && HEAD !== oid\<close>. When \<^verbatim>\<open>HEAD\<close> already resolves to the oid of the
  ref the block is skipped and the update of \<^verbatim>\<open>HEAD\<close> runs: with \<^verbatim>\<open>HEAD\<close> on the branch
  \<^verbatim>\<open>master\<close>, and \<^verbatim>\<open>master\<close> and \<^verbatim>\<open>develop\<close> at the same commit, the dry run of a checkout of
  \<^verbatim>\<open>develop\<close> returns nothing and rewrites \<^verbatim>\<open>HEAD\<close> to \<^verbatim>\<open>ref: refs/heads/develop\<close>. The
  theorem evaluates the operation there.
\<close>

theorem C2_dry_run_writes_HEAD:
  "dryRun (example_args ''develop'' False True)
   \<and> \<not> noCheckout (example_args ''develop'' False True)
   \<and> fs_read (example_world [(''master'', ''c1''), (''develop'', ''c1''), (''HEAD'', ''c1'')]
        [(''master'', ''refs/heads/master''), (''develop'', ''refs/heads/develop'')]
        [(''/repo/.git/HEAD'', ''ref: refs/heads/master'' @ [CHR 0x0A])] fresh_tree) []
        ''/repo/.git/HEAD'' = Inr (''ref: refs/heads/master'' @ [CHR 0x0A])
   \<and> fastCheckout (example_world [(''master'', ''c1''), (''develop'', ''c1''), (''HEAD'', ''c1'')]
        [(''master'', ''refs/heads/master''), (''develop'', ''refs/heads/develop'')]
        [(''/repo/.git/HEAD'', ''ref: refs/heads/master'' @ [CHR 0x0A])] fresh_tree)
        example_helpers (example_args ''develop'' False True)
       = (Inr None,
          \<lparr>calls = [FsWrite ''/repo/.git/HEAD'' (''ref: refs/heads/develop'' @ [CHR 0x0A]) None],
           count = 0\<rparr>)"
  by (simp add: example_defs planner_defs operation_defs)


text \<open>
  Claim C7, as amended. For every invocation where \<^verbatim>\<open>HEAD\<close> resolves to the oid the ref
  resolves to (and \<^verbatim>\<open>noCheckout\<close> is false), no plan is built (the outcome does not depend
  on what the walkers would present) and the working tree and the index are not touched:
  when the ref expands, the only recorded call is the write of \<^verbatim>\<open>HEAD\<close>, with the content
  \<^verbatim>\<open>ref: <fullref>\<close> or \<^verbatim>\<open><oid>\<close> that the update of \<^verbatim>\<open>HEAD\<close> always writes (whatever
  \<^verbatim>\<open>HEAD\<close> contained); when the ref does not expand, nothing is recorded.
\<close>

theorem C7_same_oid:
  assumes "ref a = Some r"
    and "resolve w [] (gitdir a) r = Inr o'"
    and "resolve w [] (gitdir a) ''HEAD'' = Inr o'"
    and "\<not> noCheckout a"
  shows "fastCheckout w h a =
           (case expand w [] (gitdir a) r of
              Inl e \<Rightarrow> (Inl (Thrown e ''git.checkout''), \<lparr>calls = [], count = 0\<rparr>)
            | Inr fullRef \<Rightarrow>
                ((case fs_write w [] (gitdir a @ ''/HEAD'') (HEAD_content fullRef o') None of
                    None \<Rightarrow> Inr None
                  | Some e \<Rightarrow> Inl (Thrown e ''git.checkout'')),
                 \<lparr>calls = [FsWrite (gitdir a @ ''/HEAD'') (HEAD_content fullRef o') None], count = 0\<rparr>))
       \<and> fastCheckout (w\<lparr>trees := t'\<rparr>) h a = fastCheckout w h a"
proof -
  have eq: "fastCheckout w' h a =
           (case expand w [] (gitdir a) r of
              Inl e \<Rightarrow> (Inl (Thrown e ''git.checkout''), \<lparr>calls = [], count = 0\<rparr>)
            | Inr fullRef \<Rightarrow>
                ((case fs_write w [] (gitdir a @ ''/HEAD'') (HEAD_content fullRef o') None of
                    None \<Rightarrow> Inr None
                  | Some e \<Rightarrow> Inl (Thrown e ''git.checkout'')),
                 \<lparr>calls = [FsWrite (gitdir a @ ''/HEAD'') (HEAD_content fullRef o') None], count = 0\<rparr>))"
    if "w' = w \<or> w' = w\<lparr>trees := t'\<rparr>" for w'
  proof -
    have r: "resolve w' [] (gitdir a) r = Inr o'" "resolve w' [] (gitdir a) ''HEAD'' = Inr o'"
      and e: "expand w' = expand w" and f: "fs_write w' = fs_write w"
      using that assms(2,3) by auto
    have r0: "resolve_oid w' a r s0 = (Inr o', s0)"
      using r(1) by (simp add: resolve_oid_local s0_def)
    have h0: "resolve w' (calls s0) (gitdir a) ''HEAD'' = Inr o'"
      using r(2) by (simp add: s0_def)
    show ?thesis
      using body_continue [OF assms(1) r0 h0, of h] e f
      by (simp add: fastCheckout_unfold update_HEAD_def effect_def log_def s0_def
          split: sum.splits option.splits)
  qed
  show ?thesis
    using eq [of w] eq [of "w\<lparr>trees := t'\<rparr>"] by simp
qed

text \<open>\<^verbatim>\<open>HEAD\<close> points to \<^verbatim>\<open>master\<close> and \<^verbatim>\<open>master\<close> is checked out again: the only call is the
  write of \<^verbatim>\<open>HEAD\<close>, here with the content it already has.\<close>

theorem C7_same_oid_witness:
  "ref (example_args ''master'' False False) = Some ''master''
   \<and> resolve (example_world [(''master'', ''c1''), (''HEAD'', ''c1'')] [(''master'', ''refs/heads/master'')]
        [(''/repo/.git/HEAD'', ''ref: refs/heads/master'' @ [CHR 0x0A])] fresh_tree) []
        (gitdir (example_args ''master'' False False)) ''master'' = Inr ''c1''
   \<and> resolve (example_world [(''master'', ''c1''), (''HEAD'', ''c1'')] [(''master'', ''refs/heads/master'')]
        [(''/repo/.git/HEAD'', ''ref: refs/heads/master'' @ [CHR 0x0A])] fresh_tree) []
        (gitdir (example_args ''master'' False False)) ''HEAD'' = Inr ''c1''
   \<and> \<not> noCheckout (example_args ''master'' False False)
   \<and> fastCheckout (example_world [(''master'', ''c1''), (''HEAD'', ''c1'')] [(''master'', ''refs/heads/master'')]
        [(''/repo/.git/HEAD'', ''ref: refs/heads/master'' @ [CHR 0x0A])] fresh_tree)
        example_helpers (example_args ''master'' False False)
       = (Inr None,
          \<lparr>calls = [FsWrite ''/repo/.git/HEAD'' (''ref: refs/heads/master'' @ [CHR 0x0A]) None],
           count = 0\<rparr>)
   \<and> fs_read (example_world [(''master'', ''c1''), (''HEAD'', ''c1'')] [(''master'', ''refs/heads/master'')]
        [(''/repo/.git/HEAD'', ''ref: refs/heads/master'' @ [CHR 0x0A])] fresh_tree) []
        ''/repo/.git/HEAD'' = Inr (''ref: refs/heads/master'' @ [CHR 0x0A])"
proof -
  let ?a = "example_args ''master'' False False"
  let ?w = "example_world [(''master'', ''c1''), (''HEAD'', ''c1'')] [(''master'', ''refs/heads/master'')]
        [(''/repo/.git/HEAD'', ''ref: refs/heads/master'' @ [CHR 0x0A])] fresh_tree"
  have h1: "ref ?a = Some ''master''" and h4: "\<not> noCheckout ?a"
    by (simp_all add: example_args_def)
  have h2: "resolve ?w [] (gitdir ?a) ''master'' = Inr ''c1''"
    and h3: "resolve ?w [] (gitdir ?a) ''HEAD'' = Inr ''c1''"
    and rd: "fs_read ?w [] ''/repo/.git/HEAD'' = Inr (''ref: refs/heads/master'' @ [CHR 0x0A])"
    by (simp_all add: example_world_def lookup_def)
  have r: "fastCheckout ?w example_helpers ?a
       = (Inr None,
          \<lparr>calls = [FsWrite ''/repo/.git/HEAD'' (''ref: refs/heads/master'' @ [CHR 0x0A]) None],
           count = 0\<rparr>)"
    using C7_same_oid [OF h1 h2 h3 h4, of example_helpers "\<lambda>hist. Inr dirty_tree"]
    by (simp add: example_world_def lookup_def example_args_def HEAD_content_def startsWith_def)
  show ?thesis
    using h1 h2 h3 h4 r rd by blast
qed

text \<open>The claim as stated fails on the content: \<^verbatim>\<open>HEAD\<close> contains
  \<^verbatim>\<open>ref: refs/heads/master\<close>, the branches \<^verbatim>\<open>master\<close> and \<^verbatim>\<open>develop\<close> are at the same
  commit, and \<^verbatim>\<open>develop\<close> is checked out: \<^verbatim>\<open>HEAD\<close> resolves to the oid of the ref, and the
  content written is \<^verbatim>\<open>ref: refs/heads/develop\<close>.\<close>

theorem C7_content_differs_counterexample:
  "resolve (example_world [(''master'', ''c1''), (''develop'', ''c1''), (''HEAD'', ''c1'')]
        [(''master'', ''refs/heads/master''), (''develop'', ''refs/heads/develop'')]
        [(''/repo/.git/HEAD'', ''ref: refs/heads/master'' @ [CHR 0x0A])] fresh_tree) []
        ''/repo/.git'' ''HEAD''
     = resolve (example_world [(''master'', ''c1''), (''develop'', ''c1''), (''HEAD'', ''c1'')]
        [(''master'', ''refs/heads/master''), (''develop'', ''refs/heads/develop'')]
        [(''/repo/.git/HEAD'', ''ref: refs/heads/master'' @ [CHR 0x0A])] fresh_tree) []
        ''/repo/.git'' ''develop''
   \<and> \<not> noCheckout (example_args ''develop'' False False)
   \<and> fs_read (example_world [(''master'', ''c1''), (''develop'', ''c1''), (''HEAD'', ''c1'')]
        [(''master'', ''refs/heads/master''), (''develop'', ''refs/heads/develop'')]
        [(''/repo/.git/HEAD'', ''ref: refs/heads/master'' @ [CHR 0x0A])] fresh_tree) []
        ''/repo/.git/HEAD'' = Inr (''ref: refs/heads/master'' @ [CHR 0x0A])
   \<and> fastCheckout (example_world [(''master'', ''c1''), (''develop'', ''c1''), (''HEAD'', ''c1'')]
        [(''master'', ''refs/heads/master''), (''develop'', ''refs/heads/develop'')]
        [(''/repo/.git/HEAD'', ''ref: refs/heads/master'' @ [CHR 0x0A])] fresh_tree)
        example_helpers (example_args ''develop'' False False)
       = (Inr None,
          \<lparr>calls = [FsWrite ''/repo/.git/HEAD'' (''ref: refs/heads/develop'' @ [CHR 0x0A]) None],
           count = 0\<rparr>)
   \<and> ''ref: refs/heads/develop'' @ [CHR 0x0A] \<noteq> ''ref: refs/heads/master'' @ [CHR 0x0A]"
  by (simp add: example_defs planner_defs operation_defs)

text \<open>
  Claim C8, as amended. Once the ref is resolved and \<^verbatim>\<open>HEAD\<close> is resolved, \<^verbatim>\<open>HEAD\<close> is
  rewritten, as the last call of the operation, exactly when the body runs to its end and
  the ref expands: when \<^verbatim>\<open>noCheckout\<close> is true or \<^verbatim>\<open>HEAD\<close> already resolves to the oid of
  the ref (then nothing else is done after the ref is resolved), or when the update of the
  working directory ran to its end, which is the case exactly when the walk yields a plan
  without conflict and error op, \<^verbatim>\<open>dryRun\<close> is false and the applier raises nothing. When
  the update of the working directory raises or returns the plan, nothing is written after
  it. The content written is \<^verbatim>\<open>ref: <fullref>\<close> and a newline when the full ref begins with
  \<^verbatim>\<open>refs/heads/\<close>, and the oid and a newline when the full ref does not begin with
  \<^verbatim>\<open>refs/heads\<close>.
\<close>

theorem C8_HEAD_update:
  assumes "ref a = Some r"
    and "resolve_oid w a r s0 = (Inr o', s1)"
    and "resolve w (calls s1) (gitdir a) ''HEAD'' = Inr HEAD"
  shows "(noCheckout a \<or> HEAD = o' \<longrightarrow>
            snd (fastCheckout w h a) =
              (case expand w (calls s1) (gitdir a) r of
                 Inl e \<Rightarrow> s1
               | Inr fullRef \<Rightarrow> log (FsWrite (gitdir a @ ''/HEAD'') (HEAD_content fullRef o') None) s1))
       \<and> (\<not> noCheckout a \<and> HEAD \<noteq> o' \<longrightarrow>
            (case update_working_dir w h a r o' s1 of
               (Done, s2) \<Rightarrow>
                 snd (fastCheckout w h a) =
                   (case expand w (calls s2) (gitdir a) r of
                      Inl e \<Rightarrow> s2
                    | Inr fullRef \<Rightarrow> log (FsWrite (gitdir a @ ''/HEAD'') (HEAD_content fullRef o') None) s2)
             | (Throw e, s2) \<Rightarrow> fastCheckout w h a = (Inl (Thrown e ''git.checkout''), s2)
             | (Return ops, s2) \<Rightarrow> fastCheckout w h a = (Inr (Some ops), s2)))
       \<and> (\<forall>s2. update_working_dir w h a r o' s1 = (Done, s2) \<longleftrightarrow>
            (\<exists>ops s'. plan w h a r o' s1 = (Inr ops, s')
               \<and> \<not> (\<exists>op \<in> set ops. elem op 0 = Str ''conflict'')
               \<and> \<not> (\<exists>op \<in> set ops. elem op 0 = Str ''error'')
               \<and> \<not> dryRun a \<and> applier w a ops s' = (None, s2)))
       \<and> (\<forall>fullRef. (startsWith fullRef ''refs/heads/'' \<longrightarrow>
                        HEAD_content fullRef o' = ''ref: '' @ fullRef @ [CHR 0x0A])
                   \<and> (\<not> startsWith fullRef ''refs/heads'' \<longrightarrow>
                        HEAD_content fullRef o' = o' @ [CHR 0x0A]))"
proof -
  note body = body_continue [OF assms, of h]
  have uh: "snd (case update_HEAD w a r o' s of (Some e, s3) \<Rightarrow> (Throw e, s3) | (None, s3) \<Rightarrow> (Done, s3))
      = (case expand w (calls s) (gitdir a) r of
           Inl e \<Rightarrow> s
         | Inr fullRef \<Rightarrow> log (FsWrite (gitdir a @ ''/HEAD'') (HEAD_content fullRef o') None) s)" for s
    by (simp add: update_HEAD_def effect_def split: sum.splits option.splits)
  have sn: "snd (fastCheckout w h a) = snd (fastCheckout_body w h a s0)"
    by (simp add: fastCheckout_unfold split: prod.splits outcome.splits)
  have p1: "noCheckout a \<or> HEAD = o' \<longrightarrow>
            snd (fastCheckout w h a) =
              (case expand w (calls s1) (gitdir a) r of
                 Inl e \<Rightarrow> s1
               | Inr fullRef \<Rightarrow> log (FsWrite (gitdir a @ ''/HEAD'') (HEAD_content fullRef o') None) s1)"
    using body uh [of s1] by (auto simp add: sn)
  have p2: "\<not> noCheckout a \<and> HEAD \<noteq> o' \<longrightarrow>
            (case update_working_dir w h a r o' s1 of
               (Done, s2) \<Rightarrow>
                 snd (fastCheckout w h a) =
                   (case expand w (calls s2) (gitdir a) r of
                      Inl e \<Rightarrow> s2
                    | Inr fullRef \<Rightarrow> log (FsWrite (gitdir a @ ''/HEAD'') (HEAD_content fullRef o') None) s2)
             | (Throw e, s2) \<Rightarrow> fastCheckout w h a = (Inl (Thrown e ''git.checkout''), s2)
             | (Return ops, s2) \<Rightarrow> fastCheckout w h a = (Inr (Some ops), s2))"
  proof
    assume c: "\<not> noCheckout a \<and> HEAD \<noteq> o'"
    obtain oc s2 where u: "update_working_dir w h a r o' s1 = (oc, s2)"
      by (cases "update_working_dir w h a r o' s1")
    show "case update_working_dir w h a r o' s1 of
               (Done, s2) \<Rightarrow>
                 snd (fastCheckout w h a) =
                   (case expand w (calls s2) (gitdir a) r of
                      Inl e \<Rightarrow> s2
                    | Inr fullRef \<Rightarrow> log (FsWrite (gitdir a @ ''/HEAD'') (HEAD_content fullRef o') None) s2)
             | (Throw e, s2) \<Rightarrow> fastCheckout w h a = (Inl (Thrown e ''git.checkout''), s2)
             | (Return ops, s2) \<Rightarrow> fastCheckout w h a = (Inr (Some ops), s2)"
    proof (cases oc)
      case (Throw e)
      then show ?thesis using c u body by (simp add: fastCheckout_unfold)
    next
      case (Return ops)
      then show ?thesis using c u body by (simp add: fastCheckout_unfold)
    next
      case Done
      then show ?thesis using c u body uh [of s2] by (simp add: sn)
    qed
  qed
  have p4: "\<forall>fullRef. (startsWith fullRef ''refs/heads/'' \<longrightarrow>
                        HEAD_content fullRef o' = ''ref: '' @ fullRef @ [CHR 0x0A])
                   \<and> (\<not> startsWith fullRef ''refs/heads'' \<longrightarrow>
                        HEAD_content fullRef o' = o' @ [CHR 0x0A])"
  proof (intro allI conjI impI)
    fix fullRef
    assume "startsWith fullRef ''refs/heads/''"
    then have "startsWith fullRef (''refs/heads'' @ ''/'')"
      by simp
    then have "startsWith fullRef ''refs/heads''"
      by (rule startsWith_append)
    then show "HEAD_content fullRef o' = ''ref: '' @ fullRef @ [CHR 0x0A]"
      by (simp add: HEAD_content_def)
  next
    fix fullRef
    assume "\<not> startsWith fullRef ''refs/heads''"
    then show "HEAD_content fullRef o' = o' @ [CHR 0x0A]"
      by (simp add: HEAD_content_def)
  qed
  show ?thesis
    using p1 p2 p4 update_working_dir_Done [of w h a r o' s1] by blast
qed

text \<open>Scenario S1 carried out: after the walk and the four phases, the last call writes
  \<^verbatim>\<open>HEAD\<close> as a symbolic ref. And a tag checked out with \<^verbatim>\<open>noCheckout = true\<close>: the only
  call writes the oid into \<^verbatim>\<open>HEAD\<close>.\<close>

theorem C8_HEAD_update_witness:
  "ref (example_args ''master'' False False) = Some ''master''
   \<and> resolve_oid (example_world [(''master'', ''c2''), (''HEAD'', ''c1'')]
          [(''master'', ''refs/heads/master'')] [] fresh_tree)
        (example_args ''master'' False False) ''master'' s0 = (Inr ''c2'', s0)
   \<and> resolve (example_world [(''master'', ''c2''), (''HEAD'', ''c1'')]
          [(''master'', ''refs/heads/master'')] [] fresh_tree) (calls s0)
        (gitdir (example_args ''master'' False False)) ''HEAD'' = Inr ''c1''
   \<and> \<not> noCheckout (example_args ''master'' False False) \<and> ''c1'' \<noteq> ''c2''
   \<and> snd (fastCheckout (example_world [(''master'', ''c2''), (''HEAD'', ''c1'')]
          [(''master'', ''refs/heads/master'')] [] fresh_tree)
        example_helpers (example_args ''master'' False False))
       = \<lparr>calls = [Emit ''progress'' ''Analyzing workdir'' 1 None,
                   PopulateStat TREE ''a'', PopulateHash TREE ''a'',
                   Emit ''progress'' ''Analyzing workdir'' 2 None,
                   PopulateStat TREE ''d'',
                   Emit ''progress'' ''Analyzing workdir'' 3 None,
                   PopulateStat TREE ''d/b'', PopulateHash TREE ''d/b'',
                   IndexAcquire ''/repo/.git/index'',
                   FsMkdir ''/repo/d'',
                   Emit ''progress'' ''Updating workdir'' 1 (Some 3),
                   IndexAcquire ''/repo/.git/index'',
                   FsWrite ''/repo/a'' ''hello'' None,
                   FsWrite ''/repo/d/b'' ''hello'' (Some 511),
                   IndexInsert (Str ''a'') \<lparr>stats.mode = 33188, size = 5, mtimeMs = 0\<rparr> (Str ''h1''),
                   Emit ''progress'' ''Updating workdir'' 2 (Some 3),
                   IndexInsert (Str ''d/b'') \<lparr>stats.mode = 493, size = 5, mtimeMs = 0\<rparr> (Str ''x1''),
                   Emit ''progress'' ''Updating workdir'' 3 (Some 3),
                   FsWrite ''/repo/.git/HEAD'' (''ref: refs/heads/master'' @ [CHR 0x0A]) None],
          count = 3\<rparr>
   \<and> ref (example_args ''v1'' True False) = Some ''v1''
   \<and> resolve_oid (example_world [(''v1'', ''c2''), (''HEAD'', ''c1'')] [(''v1'', ''refs/tags/v1'')] []
          fresh_tree) (example_args ''v1'' True False) ''v1'' s0 = (Inr ''c2'', s0)
   \<and> resolve (example_world [(''v1'', ''c2''), (''HEAD'', ''c1'')] [(''v1'', ''refs/tags/v1'')] []
          fresh_tree) (calls s0) (gitdir (example_args ''v1'' True False)) ''HEAD'' = Inr ''c1''
   \<and> noCheckout (example_args ''v1'' True False)
   \<and> snd (fastCheckout (example_world [(''v1'', ''c2''), (''HEAD'', ''c1'')] [(''v1'', ''refs/tags/v1'')] []
          fresh_tree) example_helpers (example_args ''v1'' True False))
       = \<lparr>calls = [FsWrite ''/repo/.git/HEAD'' (''c2'' @ [CHR 0x0A]) None], count = 0\<rparr>"
proof -
  let ?a = "example_args ''master'' False False"
  let ?w = "example_world [(''master'', ''c2''), (''HEAD'', ''c1'')]
              [(''master'', ''refs/heads/master'')] [] fresh_tree"
  let ?a' = "example_args ''v1'' True False"
  let ?w' = "example_world [(''v1'', ''c2''), (''HEAD'', ''c1'')] [(''v1'', ''refs/tags/v1'')] [] fresh_tree"
  let ?s2 = "\<lparr>calls = [Emit ''progress'' ''Analyzing workdir'' 1 None,
                   PopulateStat TREE ''a'', PopulateHash TREE ''a'',
                   Emit ''progress'' ''Analyzing workdir'' 2 None,
                   PopulateStat TREE ''d'',
                   Emit ''progress'' ''Analyzing workdir'' 3 None,
                   PopulateStat TREE ''d/b'', PopulateHash TREE ''d/b'',
                   IndexAcquire ''/repo/.git/index'',
                   FsMkdir ''/repo/d'',
                   Emit ''progress'' ''Updating workdir'' 1 (Some 3),
                   IndexAcquire ''/repo/.git/index'',
                   FsWrite ''/repo/a'' ''hello'' None,
                   FsWrite ''/repo/d/b'' ''hello'' (Some 511),
                   IndexInsert (Str ''a'') \<lparr>stats.mode = 33188, size = 5, mtimeMs = 0\<rparr> (Str ''h1''),
                   Emit ''progress'' ''Updating workdir'' 2 (Some 3),
                   IndexInsert (Str ''d/b'') \<lparr>stats.mode = 493, size = 5, mtimeMs = 0\<rparr> (Str ''x1''),
                   Emit ''progress'' ''Updating workdir'' 3 (Some 3)],
          count = 3\<rparr>"
  have h1: "ref ?a = Some ''master''" and h4: "\<not> noCheckout ?a" and h5: "''c1'' \<noteq> ''c2''"
    and h1': "ref ?a' = Some ''v1''" and h4': "noCheckout ?a'"
    by (simp_all add: example_args_def)
  have h2: "resolve_oid ?w ?a ''master'' s0 = (Inr ''c2'', s0)"
    and h2': "resolve_oid ?w' ?a' ''v1'' s0 = (Inr ''c2'', s0)"
    by (simp_all add: resolve_oid_def example_world_def lookup_def)
  have h3: "resolve ?w (calls s0) (gitdir ?a) ''HEAD'' = Inr ''c1''"
    and h3': "resolve ?w' (calls s0) (gitdir ?a') ''HEAD'' = Inr ''c1''"
    by (simp_all add: example_world_def lookup_def)
  have uw: "update_working_dir ?w example_helpers ?a ''master'' ''c2'' s0 = (Done, ?s2)"
    by (simp add: fresh_tree_def example_defs planner_defs operation_defs applier_defs Let_def
        eval_nat_numeral)
  note th = C8_HEAD_update [OF h1 h2 h3, of example_helpers]
  from th [THEN conjunct2, THEN conjunct1, THEN mp, OF conjI [OF h4 h5]]
  have r: "snd (fastCheckout ?w example_helpers ?a) = ?s2\<lparr>calls := calls ?s2 @
      [FsWrite ''/repo/.git/HEAD'' (''ref: refs/heads/master'' @ [CHR 0x0A]) None]\<rparr>"
    unfolding uw
    by (simp add: example_world_def lookup_def example_args_def log_def HEAD_content_def startsWith_def)
  note th' = C8_HEAD_update [OF h1' h2' h3', of example_helpers]
  from th' [THEN conjunct1, THEN mp, OF disjI1 [OF h4']]
  have r': "snd (fastCheckout ?w' example_helpers ?a')
       = \<lparr>calls = [FsWrite ''/repo/.git/HEAD'' (''c2'' @ [CHR 0x0A]) None], count = 0\<rparr>"
    by (simp add: example_world_def lookup_def example_args_def log_def HEAD_content_def startsWith_def
        s0_def)
  from r have r2: "snd (fastCheckout ?w example_helpers ?a)
       = \<lparr>calls = [Emit ''progress'' ''Analyzing workdir'' 1 None,
                   PopulateStat TREE ''a'', PopulateHash TREE ''a'',
                   Emit ''progress'' ''Analyzing workdir'' 2 None,
                   PopulateStat TREE ''d'',
                   Emit ''progress'' ''Analyzing workdir'' 3 None,
                   PopulateStat TREE ''d/b'', PopulateHash TREE ''d/b'',
                   IndexAcquire ''/repo/.git/index'',
                   FsMkdir ''/repo/d'',
                   Emit ''progress'' ''Updating workdir'' 1 (Some 3),
                   IndexAcquire ''/repo/.git/index'',
                   FsWrite ''/repo/a'' ''hello'' None,
                   FsWrite ''/repo/d/b'' ''hello'' (Some 511),
                   IndexInsert (Str ''a'') \<lparr>stats.mode = 33188, size = 5, mtimeMs = 0\<rparr> (Str ''h1''),
                   Emit ''progress'' ''Updating workdir'' 2 (Some 3),
                   IndexInsert (Str ''d/b'') \<lparr>stats.mode = 493, size = 5, mtimeMs = 0\<rparr> (Str ''x1''),
                   Emit ''progress'' ''Updating workdir'' 3 (Some 3),
                   FsWrite ''/repo/.git/HEAD'' (''ref: refs/heads/master'' @ [CHR 0x0A]) None],
          count = 3\<rparr>"
    by simp
  show ?thesis
    using h1 h2 h3 h4 h5 r2 h1' h2' h3' h4' r' by blast
qed

text \<open>The claim as stated fails in two places. With \<^verbatim>\<open>noCheckout = false\<close> and \<^verbatim>\<open>HEAD\<close>
  already at the oid of the ref, no applier phase runs and \<^verbatim>\<open>HEAD\<close> is written all the
  same. And a full ref \<^verbatim>\<open>refs/heads-old/x\<close>, which does not begin with \<^verbatim>\<open>refs/heads/\<close>, is
  written as a symbolic ref, not as the oid.\<close>

theorem C8_HEAD_update_counterexample:
  "\<not> noCheckout (example_args ''master'' False False)
   \<and> resolve (example_world [(''master'', ''c1''), (''HEAD'', ''c1'')]
          [(''master'', ''refs/heads/master'')] [] fresh_tree) [] ''/repo/.git'' ''HEAD''
       = resolve (example_world [(''master'', ''c1''), (''HEAD'', ''c1'')]
          [(''master'', ''refs/heads/master'')] [] fresh_tree) [] ''/repo/.git'' ''master''
   \<and> fastCheckout (example_world [(''master'', ''c1''), (''HEAD'', ''c1'')]
          [(''master'', ''refs/heads/master'')] [] fresh_tree)
        example_helpers (example_args ''master'' False False)
       = (Inr None,
          \<lparr>calls = [FsWrite ''/repo/.git/HEAD'' (''ref: refs/heads/master'' @ [CHR 0x0A]) None],
           count = 0\<rparr>)
   \<and> \<not> startsWith ''refs/heads-old/x'' ''refs/heads/''
   \<and> fastCheckout (example_world [(''heads-old/x'', ''c1''), (''HEAD'', ''c1'')]
          [(''heads-old/x'', ''refs/heads-old/x'')] [] fresh_tree)
        example_helpers (example_args ''heads-old/x'' False False)
       = (Inr None,
          \<lparr>calls = [FsWrite ''/repo/.git/HEAD'' (''ref: refs/heads-old/x'' @ [CHR 0x0A]) None],
           count = 0\<rparr>)"
  by (simp add: example_defs planner_defs operation_defs)


section \<open>The order of the plan\<close>

text \<open>Paths: a path below a child of a directory is below the directory, never above it,
  and the paths at or below two children of different names are apart.\<close>

lemma startsWith_decomp: "startsWith x p \<longleftrightarrow> (\<exists>r. x = p @ r)"
proof
  assume "startsWith x p"
  then have "x = p @ drop (length p) x"
    by (metis append_take_drop_id startsWith_def)
  then show "\<exists>r. x = p @ r" ..
next
  assume "\<exists>r. x = p @ r"
  then show "startsWith x p" by (auto simp add: startsWith_def)
qed

lemma beneath_decomp: "beneath P X \<longleftrightarrow> (\<exists>r. X = P @ ''/'' @ r)"
  by (simp add: beneath_def startsWith_decomp)

lemma within_under: "within F q \<Longrightarrow> beneath q p \<Longrightarrow> beneath F p"
  by (auto simp add: within_def beneath_decomp)

lemma beneath_not_sym: "beneath F p \<Longrightarrow> \<not> beneath p F"
  by (auto simp add: beneath_decomp)

lemma within_child: "within (F @ ''/'' @ n) p \<Longrightarrow> beneath F p"
  by (auto simp add: within_def beneath_decomp)

lemma within_first_name:
  assumes "within (pre @ n) p" and "CHR ''/'' \<notin> set n"
  shows "takeWhile (\<lambda>c. c \<noteq> CHR ''/'') (drop (length pre) p) = n"
proof -
  from assms(1) obtain r where p: "p = pre @ n @ r" and r: "r = [] \<or> hd r = CHR ''/''"
    by (auto simp add: within_def beneath_decomp)
  have n: "\<forall>c \<in> set n. c \<noteq> CHR ''/''"
    using assms(2) by auto
  have "takeWhile (\<lambda>c. c \<noteq> CHR ''/'') (n @ r) = n"
  proof (cases r)
    case Nil
    then show ?thesis using n by (simp add: takeWhile_eq_all_conv)
  next
    case (Cons x xs)
    with r have "x = CHR ''/''" by simp
    with Cons show ?thesis using n
      by (simp add: takeWhile_append2)
  qed
  then show ?thesis using p by simp
qed

lemma siblings_apart:
  assumes "within (pre @ n1) x" and "within (pre @ n2) y"
    and "CHR ''/'' \<notin> set n1" and "CHR ''/'' \<notin> set n2"
    and "beneath x y \<or> beneath y x"
  shows "n1 = n2"
proof -
  from assms(5) show ?thesis
  proof
    assume "beneath x y"
    with assms(1) have "within (pre @ n1) y"
      by (auto simp add: within_def intro: within_under)
    then show ?thesis
      using within_first_name [OF _ assms(3)] within_first_name [OF assms(2) assms(4)] by metis
  next
    assume "beneath y x"
    with assms(2) have "within (pre @ n2) x"
      by (auto simp add: within_def intro: within_under)
    then show ?thesis
      using within_first_name [OF _ assms(4)] within_first_name [OF assms(1) assms(3)] by metis
  qed
qed


lemma must_precede_paths:
  assumes "must_precede x y"
  shows "pathed x" and "pathed y"
    and "\<exists>p q. elem x 1 = Str p \<and> elem y 1 = Str q \<and> (beneath p q \<or> beneath q p)"
  using assms by (auto simp add: must_precede_def pathed_def split: jsval.splits)

lemma must_precede_kinds:
  assumes "must_precede x y"
  shows "elem x 0 = Str ''mkdir'' \<and> elem y 0 = Str ''create'' \<or>
         elem x 0 = Str ''delete'' \<and> elem y 0 = Str ''rmdir''"
  using assms by (auto simp add: must_precede_def split: jsval.splits)

lemma must_precede_under:
  assumes "must_precede x y" and "elem y 0 \<noteq> Str ''rmdir''"
  shows "\<exists>p q. elem x 1 = Str p \<and> elem y 1 = Str q \<and> beneath p q"
  using assms by (auto simp add: must_precede_def split: jsval.splits)

lemma siblings_unordered:
  assumes "scoped (pre @ n1) x" and "scoped (pre @ n2) y"
    and "CHR ''/'' \<notin> set n1" and "CHR ''/'' \<notin> set n2" and "n1 \<noteq> n2"
  shows "\<not> must_precede y x"
proof
  assume m: "must_precede y x"
  from must_precede_paths [OF m] obtain p q where
    pq: "pathed y" "pathed x" "elem y 1 = Str p" "elem x 1 = Str q" "beneath p q \<or> beneath q p"
    by blast
  from assms(1) pq have wx: "within (pre @ n1) q" by (auto simp add: scoped_def)
  from assms(2) pq have wy: "within (pre @ n2) p" by (auto simp add: scoped_def)
  from siblings_apart [OF wx wy assms(3,4)] pq(5) assms(5) show False by blast
qed

lemma map_fn_path:
  assumes "map_fn h a (c, w, st) s = (Inr (Some op), s')"
    and "fullpath w = fullpath c" and "fullpath st = fullpath c" and "pathed op"
  shows "elem op 1 = Str (fullpath c)"
proof -
  have "fst (map_fn h a (c, w, st) s) = Inr (Some op)"
    using assms(1) by simp
  then show ?thesis
    using assms(2,3,4)
    by (auto simp add: map_fn_def planner_def case_010_def case_011_def case_101_def
        case_110_111_def then_do_def populateStat_def populateHash_def Let_def elem_def pathed_def
        split: if_splits option.splits)
qed

lemma wf_node_name:
  assumes "wf_node pre t"
  shows "\<exists>n. node_path t = pre @ n \<and> CHR ''/'' \<notin> set n"
proof -
  obtain c w st kids where t: "t = TNode (c, w, st) kids"
    by (metis node_path.cases)
  from assms have a: "take (length pre) (fullpath c) = pre"
    and b: "CHR ''/'' \<notin> set (drop (length pre) (fullpath c))"
    unfolding t by simp_all
  have "fullpath c = pre @ drop (length pre) (fullpath c)"
    using a by (metis append_take_drop_id)
  with b show ?thesis unfolding t by auto
qed

text \<open>The reducer keeps the ops of a subtree together, and the subtrees of a directory in
  the order walked; by induction over the walk no op comes after an op it must precede.\<close>

lemma reduce_cases:
  "reduce None walked = concat walked"
  "reduce (Some p) walked = (if elem p 0 = Str ''rmdir'' then concat walked @ [p] else p # concat walked)"
  by (simp_all add: reduce_def flat_def)

lemma reduce_ordered:
  assumes kids: "sorted_wrt (\<lambda>x y. \<not> must_precede y x) (concat walked)"
    and below: "\<forall>op \<in> set (concat walked). pathed op \<longrightarrow> (\<exists>p. elem op 1 = Str p \<and> beneath F p)"
    and parent: "\<forall>p. parent = Some p \<longrightarrow> pathed p \<longrightarrow> elem p 1 = Str F"
  shows "sorted_wrt (\<lambda>x y. \<not> must_precede y x) (reduce parent walked)"
    and "\<forall>op \<in> set (reduce parent walked). scoped F op"
proof -
  have sc: "scoped F op" if "op \<in> set (concat walked)" for op
    using below that by (auto simp add: scoped_def within_def)
  show "\<forall>op \<in> set (reduce parent walked). scoped F op"
  proof (cases parent)
    case None
    then show ?thesis using sc by (simp add: reduce_cases)
  next
    case (Some p)
    have "scoped F p"
      using parent Some by (simp add: scoped_def within_def)
    then show ?thesis using sc Some by (auto simp add: reduce_cases)
  qed
  show "sorted_wrt (\<lambda>x y. \<not> must_precede y x) (reduce parent walked)"
  proof (cases parent)
    case None
    then show ?thesis using kids by (simp add: reduce_cases)
  next
    case (Some p)
    show ?thesis
    proof (cases "elem p 0 = Str ''rmdir''")
      case True
      have "\<not> must_precede p x" for x
        using must_precede_kinds [of p x] True by auto
      then show ?thesis
        using kids Some True by (simp add: reduce_cases sorted_wrt_append)
    next
      case False
      have "\<not> must_precede y p" if y: "y \<in> set (concat walked)" for y
      proof
        assume m: "must_precede y p"
        from must_precede_under [OF m False] obtain py pp where
          e: "elem y 1 = Str py" "elem p 1 = Str pp" "beneath py pp"
          by blast
        from must_precede_paths(1,2) [OF m] have "pathed y" "pathed p" .
        with parent Some e have "pp = F" by simp
        moreover have "beneath F py"
        proof -
          from below y \<open>pathed y\<close> obtain p' where "elem y 1 = Str p'" "beneath F p'"
            by blast
          with e(1) show ?thesis by simp
        qed
        ultimately show False using e(3) beneath_not_sym by blast
      qed
      then show ?thesis
        using kids Some False by (simp add: reduce_cases)
    qed
  qed
qed

lemma walk_ordered:
  fixes flt :: "triple \<Rightarrow> bool" and mp :: "triple \<Rightarrow> state \<Rightarrow> (gerror + op option) \<times> state"
  assumes "\<forall>c w st s op s'. mp (c, w, st) s = (Inr (Some op), s') \<longrightarrow> fullpath w = fullpath c \<longrightarrow>
             fullpath st = fullpath c \<longrightarrow> pathed op \<longrightarrow> elem op 1 = Str (fullpath c)"
    and "red = reduce"
  shows "\<forall>pre ops s'. wf_node pre t \<longrightarrow> walk flt mp red t s = (Inr (Some ops), s') \<longrightarrow>
           sorted_wrt (\<lambda>x y. \<not> must_precede y x) ops \<and> (\<forall>op \<in> set ops. scoped (node_path t) op)"
    and "\<forall>pre rs s'. list_all (wf_node pre) ts \<longrightarrow> distinct (map node_path ts) \<longrightarrow>
           walk_children flt mp red ts s = (Inr rs, s') \<longrightarrow>
           sorted_wrt (\<lambda>x y. \<not> must_precede y x) (concat rs) \<and>
           (\<forall>op \<in> set (concat rs). \<exists>k \<in> set ts. scoped (node_path k) op)"
  using assms
proof (induction flt mp red t s and flt mp red ts s rule: walk_walk_children.induct)
  case (1 flt mp red entry children s)
  show ?case
  proof (intro allI impI)
    fix pre ops s'
    assume wf: "wf_node pre (TNode entry children)"
      and wk: "walk flt mp red (TNode entry children) s = (Inr (Some ops), s')"
    obtain c w st where entry: "entry = (c, w, st)" by (cases entry)
    from wk have flt: "flt entry" by (auto split: if_splits)
    from wk flt obtain parent s1 where m: "mp entry s = (Inr parent, s1)"
      by (auto split: prod.splits sum.splits)
    from wk flt m obtain walked s2 where ch: "walk_children flt mp red children s1 = (Inr walked, s2)"
      by (auto split: prod.splits sum.splits)
    from wk flt m ch "1.prems"(2) have ops: "ops = reduce parent walked" by simp
    let ?F = "fullpath c"
    from wf entry have paths: "fullpath w = ?F" "fullpath st = ?F"
      and dist: "distinct (map node_path children)"
      and kids: "list_all (wf_node (?F @ ''/'')) children"
      by simp_all
    from "1.IH" [OF flt m [symmetric] refl "1.prems"] kids dist ch
    have srt: "sorted_wrt (\<lambda>x y. \<not> must_precede y x) (concat walked)"
      and sck: "\<forall>op \<in> set (concat walked). \<exists>k \<in> set children. scoped (node_path k) op"
      by blast+
    have below: "\<forall>op \<in> set (concat walked). pathed op \<longrightarrow> (\<exists>p. elem op 1 = Str p \<and> beneath ?F p)"
    proof (intro ballI impI)
      fix op assume op: "op \<in> set (concat walked)" and p: "pathed op"
      from sck op obtain k where k: "k \<in> set children" "scoped (node_path k) op" by blast
      from kids k(1) have "wf_node (?F @ ''/'') k" by (simp add: list_all_iff)
      from wf_node_name [OF this] obtain n where n: "node_path k = (?F @ ''/'') @ n" by blast
      from k(2) p obtain q where q: "elem op 1 = Str q" "within (node_path k) q"
        by (auto simp add: scoped_def)
      from q(2) n have "beneath ?F q" using within_child [of ?F n q] by simp
      with q(1) show "\<exists>p. elem op 1 = Str p \<and> beneath ?F p" by blast
    qed
    have parent: "\<forall>p. parent = Some p \<longrightarrow> pathed p \<longrightarrow> elem p 1 = Str ?F"
      using "1.prems"(1) m entry paths by blast
    from reduce_ordered [OF srt below parent] ops entry
    show "sorted_wrt (\<lambda>x y. \<not> must_precede y x) ops \<and>
          (\<forall>op \<in> set ops. scoped (node_path (TNode entry children)) op)"
      by simp
  qed
next
  case (2 flt mp red s)
  then show ?case by simp
next
  case (3 flt mp red c cs s)
  show ?case
  proof (intro allI impI)
    fix pre rs s'
    assume wf: "list_all (wf_node pre) (c # cs)"
      and dist: "distinct (map node_path (c # cs))"
      and wk: "walk_children flt mp red (c # cs) s = (Inr rs, s')"
    from wk obtain r s1 where w1: "walk flt mp red c s = (Inr r, s1)"
      by (auto split: prod.splits sum.splits)
    from wk w1 obtain rs0 s2 where w2: "walk_children flt mp red cs s1 = (Inr rs0, s2)"
      by (auto split: prod.splits sum.splits)
    from wk w1 w2 have rs: "rs = (case r of None \<Rightarrow> rs0 | Some ops \<Rightarrow> ops # rs0)" by simp
    from wf have wfc: "wf_node pre c" and wfcs: "list_all (wf_node pre) cs" by simp_all
    from dist have dcs: "distinct (map node_path cs)" and nc: "node_path c \<notin> node_path ` set cs"
      by simp_all
    from "3.IH"(2) [OF w1 [symmetric] refl "3.prems"] wfcs dcs w2
    have srt0: "sorted_wrt (\<lambda>x y. \<not> must_precede y x) (concat rs0)"
      and sc0: "\<forall>op \<in> set (concat rs0). \<exists>k \<in> set cs. scoped (node_path k) op"
      by blast+
    show "sorted_wrt (\<lambda>x y. \<not> must_precede y x) (concat rs) \<and>
          (\<forall>op \<in> set (concat rs). \<exists>k \<in> set (c # cs). scoped (node_path k) op)"
    proof (cases r)
      case None
      then show ?thesis using rs srt0 sc0 by auto
    next
      case (Some ops)
      from "3.IH"(1) [OF "3.prems"] wfc w1 Some
      have srt1: "sorted_wrt (\<lambda>x y. \<not> must_precede y x) ops"
        and sc1: "\<forall>op \<in> set ops. scoped (node_path c) op"
        by blast+
      from wf_node_name [OF wfc] obtain n1 where n1: "node_path c = pre @ n1" "CHR ''/'' \<notin> set n1"
        by blast
      have cross: "\<not> must_precede y x" if x: "x \<in> set ops" and y: "y \<in> set (concat rs0)" for x y
      proof -
        from sc0 y obtain k where k: "k \<in> set cs" "scoped (node_path k) y" by blast
        from wfcs k(1) have "wf_node pre k" by (simp add: list_all_iff)
        from wf_node_name [OF this] obtain n2 where n2: "node_path k = pre @ n2" "CHR ''/'' \<notin> set n2"
          by blast
        from nc k(1) have "node_path c \<noteq> node_path k" by auto
        with n1 n2 have ne: "n1 \<noteq> n2" by auto
        from sc1 x have "scoped (pre @ n1) x" using n1 by simp
        moreover from k(2) have "scoped (pre @ n2) y" using n2 by simp
        ultimately show ?thesis
          using siblings_unordered n1(2) n2(2) ne by blast
      qed
      have "sorted_wrt (\<lambda>x y. \<not> must_precede y x) (ops @ concat rs0)"
        using srt1 srt0 cross by (simp add: sorted_wrt_append)
      moreover have "\<forall>op \<in> set (ops @ concat rs0). \<exists>k \<in> set (c # cs). scoped (node_path k) op"
        using sc1 sc0 by auto
      ultimately show ?thesis using rs Some by simp
    qed
  qed
qed

lemma ordered_nth:
  assumes "sorted_wrt (\<lambda>x y. \<not> must_precede y x) ops"
    and "i < length ops" and "j < length ops" and "must_precede (ops ! i) (ops ! j)"
  shows "i < j"
proof (rule ccontr)
  assume "\<not> i < j"
  then consider "j < i" | "i = j" by linarith
  then show False
  proof cases
    case 1
    with assms(1,2) have "\<not> must_precede (ops ! i) (ops ! j)"
      by (simp add: sorted_wrt_iff_nth_less)
    with assms(4) show False by simp
  next
    case 2
    with assms(4) must_precede_kinds [of "ops ! i" "ops ! i"] show False by auto
  qed
qed

lemma root_ordered:
  assumes "wf_root t" and "walk flt (map_fn h a) reduce t s = (Inr (Some ops), s')"
  shows "sorted_wrt (\<lambda>x y. \<not> must_precede y x) ops"
proof -
  obtain c w st kids where t: "t = TNode (c, w, st) kids"
    by (metis node_path.cases)
  from assms(1) have root: "fullpath c = ''.''" and dist: "distinct (map node_path kids)"
    and kids: "list_all (wf_node []) kids"
    unfolding t by simp_all
  from assms(2) have flt: "flt (c, w, st)" unfolding t by (auto split: if_splits)
  have m: "map_fn h a (c, w, st) s = (Inr None, s)"
    using root by (simp add: map_fn_def)
  from assms(2) flt m obtain walked s2
    where ch: "walk_children flt (map_fn h a) reduce kids s = (Inr walked, s2)"
    unfolding t by (auto split: prod.splits sum.splits)
  from assms(2) flt m ch have ops: "ops = concat walked"
    unfolding t by (simp add: reduce_cases)
  have mp: "\<forall>c w st s op s'. map_fn h a (c, w, st) s = (Inr (Some op), s') \<longrightarrow> fullpath w = fullpath c \<longrightarrow>
             fullpath st = fullpath c \<longrightarrow> pathed op \<longrightarrow> elem op 1 = Str (fullpath c)"
    using map_fn_path by blast
  from walk_ordered(2) [OF mp refl, of kids flt s] kids dist ch
  show ?thesis unfolding ops by blast
qed


text \<open>
  Claim C4. The reducer returns the flattened children when the parent produced no op,
  appends a parent op after the ops of its children when it is an \<^verbatim>\<open>rmdir\<close>, and prepends
  every other parent op. Consequently, in the plan that the walk yields from a tree of
  triples as the walker presents them (\<open>wf_root\<close>), for every pair of positions holding
  \<open>mkdir P\<close> and \<open>create P/Q\<close> the mkdir comes first, and for every pair holding
  \<open>delete P/Q\<close> and \<open>rmdir P\<close> the delete comes first.
\<close>

theorem C4_apply_order:
  assumes "wf_root t" and "walk (filter_fn h a) (map_fn h a) reduce t s = (Inr (Some ops), s')"
  shows "(\<forall>children. reduce None children = flat children)
       \<and> (\<forall>p children. reduce (Some p) children =
             (if elem p 0 = Str ''rmdir'' then flat children @ [p] else p # flat children))
       \<and> (\<forall>i j P Q. i < length ops \<and> j < length ops
             \<and> elem (ops ! i) 0 = Str ''mkdir'' \<and> elem (ops ! i) 1 = Str P
             \<and> elem (ops ! j) 0 = Str ''create'' \<and> elem (ops ! j) 1 = Str (P @ ''/'' @ Q)
            \<longrightarrow> i < j)
       \<and> (\<forall>i j P Q. i < length ops \<and> j < length ops
             \<and> elem (ops ! i) 0 = Str ''delete'' \<and> elem (ops ! i) 1 = Str (P @ ''/'' @ Q)
             \<and> elem (ops ! j) 0 = Str ''rmdir'' \<and> elem (ops ! j) 1 = Str P
            \<longrightarrow> i < j)"
proof -
  note srt = root_ordered [OF assms]
  have r: "(\<forall>children. reduce None children = flat children)
       \<and> (\<forall>p children. reduce (Some p) children =
             (if elem p 0 = Str ''rmdir'' then flat children @ [p] else p # flat children))"
    by (simp add: reduce_def)
  have b: "beneath P (P @ ''/'' @ Q)" for P Q
    by (simp add: beneath_def startsWith_def)
  have a: "i < j" if "i < length ops" "j < length ops"
      "elem (ops ! i) 0 = Str ''mkdir''" "elem (ops ! i) 1 = Str P"
      "elem (ops ! j) 0 = Str ''create''" "elem (ops ! j) 1 = Str (P @ ''/'' @ Q)" for i j P Q
  proof -
    have "must_precede (ops ! i) (ops ! j)"
      using that(3-6) b [of P Q] by (simp add: must_precede_def)
    with srt that(1,2) show ?thesis by (rule ordered_nth)
  qed
  have d: "i < j" if "i < length ops" "j < length ops"
      "elem (ops ! i) 0 = Str ''delete''" "elem (ops ! i) 1 = Str (P @ ''/'' @ Q)"
      "elem (ops ! j) 0 = Str ''rmdir''" "elem (ops ! j) 1 = Str P" for i j P Q
  proof -
    have "must_precede (ops ! i) (ops ! j)"
      using that(3-6) b [of P Q] by (simp add: must_precede_def)
    with srt that(1,2) show ?thesis by (rule ordered_nth)
  qed
  show ?thesis
    using r a d by blast
qed

text \<open>A new directory with a file and a directory to remove with its file: the mkdir is at
  position 0 and the create at 1, the delete at 2 and the rmdir at 3.\<close>

theorem C4_apply_order_witness:
  "wf_root mixed_tree
   \<and> walk (filter_fn example_helpers (example_args ''master'' False False))
        (map_fn example_helpers (example_args ''master'' False False)) reduce mixed_tree s0
       = (Inr (Some [[Str ''mkdir'', Str ''d''],
                [Str ''create'', Str ''d/b'', Str ''x1'', Str ''100755''],
                [Str ''delete'', Str ''old/x''],
                [Str ''rmdir'', Str ''old'']]),
          \<lparr>calls = [Emit ''progress'' ''Analyzing workdir'' 1 None,
                    PopulateStat TREE ''d'',
                    Emit ''progress'' ''Analyzing workdir'' 2 None,
                    PopulateStat TREE ''d/b'', PopulateHash TREE ''d/b'',
                    Emit ''progress'' ''Analyzing workdir'' 3 None,
                    PopulateStat STAGE ''old'',
                    Emit ''progress'' ''Analyzing workdir'' 4 None,
                    PopulateStat STAGE ''old/x'', PopulateHash STAGE ''old/x'',
                    PopulateHash WORKDIR ''old/x''],
           count = 4\<rparr>)
   \<and> reduce (Some [Str ''rmdir'', Str ''old'']) [[[Str ''delete'', Str ''old/x'']]]
       = [[Str ''delete'', Str ''old/x''], [Str ''rmdir'', Str ''old'']]
   \<and> reduce (Some [Str ''mkdir'', Str ''d'']) [[[Str ''create'', Str ''d/b'', Str ''x1'', Str ''100755'']]]
       = [[Str ''mkdir'', Str ''d''], [Str ''create'', Str ''d/b'', Str ''x1'', Str ''100755'']]
   \<and> (0 :: nat) < 1 \<and> (2 :: nat) < 3"
proof -
  let ?h = example_helpers
  let ?a = "example_args ''master'' False False"
  let ?ops = "[[Str ''mkdir'', Str ''d''], [Str ''create'', Str ''d/b'', Str ''x1'', Str ''100755''],
               [Str ''delete'', Str ''old/x''], [Str ''rmdir'', Str ''old'']]"
  let ?s = "\<lparr>calls = [Emit ''progress'' ''Analyzing workdir'' 1 None,
                    PopulateStat TREE ''d'',
                    Emit ''progress'' ''Analyzing workdir'' 2 None,
                    PopulateStat TREE ''d/b'', PopulateHash TREE ''d/b'',
                    Emit ''progress'' ''Analyzing workdir'' 3 None,
                    PopulateStat STAGE ''old'',
                    Emit ''progress'' ''Analyzing workdir'' 4 None,
                    PopulateStat STAGE ''old/x'', PopulateHash STAGE ''old/x'',
                    PopulateHash WORKDIR ''old/x''],
           count = 4\<rparr>"
  have h1: "wf_root mixed_tree"
    by (simp add: mixed_tree_def example_defs)
  have h2: "walk (filter_fn ?h ?a) (map_fn ?h ?a) reduce mixed_tree s0 = (Inr (Some ?ops), ?s)"
    by (simp add: mixed_tree_def example_defs planner_defs)
  note th = C4_apply_order [OF h1 h2]
  from th have red: "\<And>p children. reduce (Some p) children =
      (if elem p 0 = Str ''rmdir'' then flat children @ [p] else p # flat children)"
    by blast
  have r1: "reduce (Some [Str ''rmdir'', Str ''old'']) [[[Str ''delete'', Str ''old/x'']]]
       = [[Str ''delete'', Str ''old/x''], [Str ''rmdir'', Str ''old'']]"
    and r2: "reduce (Some [Str ''mkdir'', Str ''d''])
               [[[Str ''create'', Str ''d/b'', Str ''x1'', Str ''100755'']]]
       = [[Str ''mkdir'', Str ''d''], [Str ''create'', Str ''d/b'', Str ''x1'', Str ''100755'']]"
    by (simp_all add: red flat_def elem_def)
  from th have mk: "\<And>i j P Q. i < length ?ops \<and> j < length ?ops
             \<and> elem (?ops ! i) 0 = Str ''mkdir'' \<and> elem (?ops ! i) 1 = Str P
             \<and> elem (?ops ! j) 0 = Str ''create'' \<and> elem (?ops ! j) 1 = Str (P @ ''/'' @ Q)
            \<longrightarrow> i < j"
    by blast
  from th have rm: "\<And>i j P Q. i < length ?ops \<and> j < length ?ops
             \<and> elem (?ops ! i) 0 = Str ''delete'' \<and> elem (?ops ! i) 1 = Str (P @ ''/'' @ Q)
             \<and> elem (?ops ! j) 0 = Str ''rmdir'' \<and> elem (?ops ! j) 1 = Str P
            \<longrightarrow> i < j"
    by blast
  have o1: "(0 :: nat) < 1"
    using mk [of 0 1 "''d''" "''b''"] by (simp add: elem_def)
  have o2: "(2 :: nat) < 3"
    using rm [of 2 3 "''old''" "''x''"] by (simp add: elem_def)
  show ?thesis
    using h1 h2 r1 r2 o1 o2 by blast
qed

end
